theory Spec2Isabelle
  imports Main
begin

section \<open>The capture orchestrator of WebScrapBook (src/capturer/background.js)\<close>

text \<open>
  A shallow embedding of the background script. JavaScript strings are modelled as
  \<open>string\<close>: the list of the bytes of the text in UTF-8 (so a Blob built from a string
  holds the same list as its bytes, and a character of ASCII is one element). A value
  that may be \<^verbatim>\<open>undefined\<close> is an \<open>option\<close>. The helper library \<^verbatim>\<open>scrapbook\<close>, the MIME
  table, JSZip's writer, the browser's download manager and the case folding of the
  JavaScript engine are not part of the file: they are parameters of the model (the
  records \<open>scrapbook\<close> and \<open>browser\<close> below), and every theorem holds for all of them
  unless it names a hypothesis about one.
\<close>

subsection \<open>Values\<close>

type_synonym timeId = string

datatype error = Error string

record blob =
  blob_data :: string
  blob_type :: string

definition blob_size :: "blob \<Rightarrow> nat" where
  "blob_size b = length (blob_data b)"

text \<open>\<^verbatim>\<open>new Blob([content], {type: mime})\<close>\<close>

definition Blob :: "string \<Rightarrow> string \<Rightarrow> blob" where
  "Blob content mime = \<lparr>blob_data = content, blob_type = mime\<rparr>"

text \<open>The options object; \<open>saveAs\<close> is \<^verbatim>\<open>options["capture.saveAs"]\<close> and so on.\<close>

record options =
  saveAs :: string
  saveInScrapbook :: bool
  scrapbookFolder :: string
  saveAsciiFilename :: bool
  saveDataUriAsFile :: bool
  recordDocumentMeta :: bool

record settings =
  timeId :: timeId
  frameIsMain :: bool
  documentName :: string

text \<open>
  The object every operation yields:
  \<^verbatim>\<open>{timeId, sourceUrl, targetDir, filename, url, error}\<close>, each but \<open>url\<close> optional.
\<close>

record response =
  r_timeId :: "timeId option"
  r_sourceUrl :: "string option"
  r_targetDir :: "string option"
  r_filename :: "string option"
  r_url :: string
  r_error :: "error option"

subsection \<open>Case folding\<close>

text \<open>\<^verbatim>\<open>"-" + (++count)\<close>: a positive count is written in decimal.\<close>

fun numToString :: "nat \<Rightarrow> string" where
  "numToString n =
     (if n < 10 then [char_of (48 + n)]
      else numToString (n div 10) @ [char_of (48 + n mod 10)])"

declare numToString.simps [simp del]

lemma numToString_digits: "c \<in> set (numToString n) \<Longrightarrow> 48 \<le> (of_char c :: nat) \<and> (of_char c :: nat) \<le> 57"
proof (induction n arbitrary: c rule: numToString.induct)
  case (1 n)
  show ?case
  proof (cases "n < 10")
    case True
    with "1.prems" have "c = char_of (48 + n)" by (simp add: numToString.simps [of n])
    with True show ?thesis by simp
  next
    case False
    with "1.prems" have "c \<in> set (numToString (n div 10)) \<or> c = char_of (48 + n mod 10)"
      by (auto simp: numToString.simps [of n])
    moreover have "n mod 10 < 10" by simp
    ultimately show ?thesis using "1.IH" False
      by (auto simp: ) 
  qed
qed

text \<open>The number a decimal string denotes, to show that \<open>numToString\<close> is injective.\<close>

definition digitsValue :: "string \<Rightarrow> nat" where
  "digitsValue s = foldl (\<lambda>a c. 10 * a + (of_char c - 48)) 0 s"

lemma digitsValue_numToString: "digitsValue (numToString n) = n"
proof (induction n rule: numToString.induct)
  case (1 n)
  show ?case
  proof (cases "n < 10")
    case True
    then show ?thesis by (simp add: numToString.simps [of n] digitsValue_def)
  next
    case False
    have "n mod 10 < 10" by simp
    then have "(48 + n mod 10) mod 256 = 48 + n mod 10" by simp
    with False "1.IH" show ?thesis
      by (simp add: numToString.simps [of n] digitsValue_def)
  qed
qed

lemma numToString_inj: "numToString m = numToString n \<Longrightarrow> m = n"
  by (metis digitsValue_numToString)

text \<open>
  \<^verbatim>\<open>String.prototype.toLowerCase\<close> follows the case mappings of Unicode, which are not
  part of the file: it is a parameter of the model. All that the model takes of it is that
  two names which differ only in the decimal number after a hyphen have different
  lowercase forms (the hyphen and the digits have no case, and they do not change how the
  letters around them are folded). The loop of \<open>getUniqueFilename\<close> ends because of this.
\<close>

typedef caseMapping =
  "{f :: string \<Rightarrow> string.
      \<forall>b e m n. f (b @ ''-'' @ numToString m @ e) = f (b @ ''-'' @ numToString n @ e) \<longrightarrow> m = n}"
  morphisms applyCase Abs_caseMapping
proof
  show "(\<lambda>s. s) \<in> {f :: string \<Rightarrow> string.
      \<forall>b e m n. f (b @ ''-'' @ numToString m @ e) = f (b @ ''-'' @ numToString n @ e) \<longrightarrow> m = n}"
    using numToString_inj by simp
qed

setup_lifting type_definition_caseMapping

text \<open>
  The helpers of \<^verbatim>\<open>scrapbook\<close>, \<^verbatim>\<open>Mime\<close> and \<^verbatim>\<open>capturer.getErrorUrl\<close> that the file calls,
  and the case folding of the JavaScript engine.
\<close>

record scrapbook =
  splitUrlByAnchor :: "string \<Rightarrow> string \<times> string"
  sha1 :: "string \<Rightarrow> string"
  filenameParts :: "string \<Rightarrow> string \<times> string"
  crop :: "string \<Rightarrow> nat \<Rightarrow> bool \<Rightarrow> string"
  validateFilename :: "string \<Rightarrow> bool \<Rightarrow> string"
  urlToFilename :: "string \<Rightarrow> string"
  escapeFilename :: "string \<Rightarrow> string"
  escapeHtml :: "string \<Rightarrow> string"
  stringToDataUri :: "string \<Rightarrow> string \<Rightarrow> string option \<Rightarrow> string"
  readFileAsDataURL :: "blob \<Rightarrow> error + string"
  dataUriToFile :: "string \<Rightarrow> (string \<times> blob) option"
  idToUTCString :: "timeId \<Rightarrow> string"
  mimeExtension :: "string \<Rightarrow> string"
  mimeLookup :: "string \<Rightarrow> string"
  mimeAllExtensions :: "string \<Rightarrow> string list"
  getErrorUrl :: "string \<Rightarrow> options \<Rightarrow> string"
  lang :: "string \<Rightarrow> string list \<Rightarrow> string"
  lowerCase :: caseMapping

text \<open>\<^verbatim>\<open>s.toLowerCase()\<close>\<close>

definition toLowerCase :: "scrapbook \<Rightarrow> string \<Rightarrow> string" where
  "toLowerCase sb = applyCase (lowerCase sb)"

subsection \<open>JavaScript string primitives\<close>

definition startsWith :: "string \<Rightarrow> string \<Rightarrow> bool" where
  "startsWith s p = (take (length p) s = p)"

definition endsWith :: "string \<Rightarrow> string \<Rightarrow> bool" where
  "endsWith s p = (length p \<le> length s \<and> drop (length s - length p) s = p)"

text \<open>
  \<^verbatim>\<open>encodeURIComponent\<close>: every byte but the unreserved characters
  \<^verbatim>\<open>A-Z a-z 0-9 - _ . ! ~ * ' ( )\<close> is written as \<^verbatim>\<open>%XX\<close>.
\<close>

definition uriUnreserved :: "char \<Rightarrow> bool" where
  "uriUnreserved c =
     (let n = (of_char c :: nat)
      in (48 \<le> n \<and> n \<le> 57) \<or> (65 \<le> n \<and> n \<le> 90) \<or> (97 \<le> n \<and> n \<le> 122)
         \<or> n \<in> {45, 95, 46, 33, 126, 42, 39, 40, 41})"

definition hexDigit :: "nat \<Rightarrow> char" where
  "hexDigit n = ''0123456789ABCDEF'' ! n"

definition encodeURIComponent :: "string \<Rightarrow> string" where
  "encodeURIComponent s =
     concat (map (\<lambda>c. if uriUnreserved c then [c]
                        else [CHR ''%'', hexDigit (of_char c div 16), hexDigit (of_char c mod 16)]) s)"

subsection \<open>The session registry\<close>

datatype compression = STORE | DEFLATE nat

record zipEntry =
  ze_data :: blob
  ze_compression :: compression

type_synonym jszip = "string \<rightharpoonup> zipEntry"

text \<open>
  \<^verbatim>\<open>capturer.captureInfo\<close>: \<^verbatim>\<open>Map<timeId, {files: Set, accessMap: Map, zip: JSZip}>\<close>.
  An entry is created as \<^verbatim>\<open>{}\<close>, so each field may be absent. \<open>files\<close> is a list
  without duplicates (a JavaScript Set keeps insertion order); the access map sends a
  token to the number of a promise.
\<close>

record info =
  files :: "string list option"
  accessMap :: "(string \<rightharpoonup> nat) option"
  zipArchive :: "jszip option"

type_synonym captureInfo = "timeId \<rightharpoonup> info"

definition emptyInfo :: info where
  "emptyInfo = \<lparr>files = None, accessMap = None, zipArchive = None\<rparr>"

text \<open>\<^verbatim>\<open>if (!capturer.captureInfo.has(timeId)) { capturer.captureInfo.set(timeId, {}); }\<close>\<close>

definition ensureInfo :: "captureInfo \<Rightarrow> timeId \<Rightarrow> captureInfo" where
  "ensureInfo ci t = (case ci t of None \<Rightarrow> ci(t \<mapsto> emptyInfo) | Some _ \<Rightarrow> ci)"

definition getInfo :: "captureInfo \<Rightarrow> timeId \<Rightarrow> info" where
  "getInfo ci t = (case ci t of None \<Rightarrow> emptyInfo | Some i \<Rightarrow> i)"

text \<open>
  \<^verbatim>\<open>var zip = capturer.captureInfo.get(timeId).zip = capturer.captureInfo.get(timeId).zip || new JSZip();\<close>
  after the entry has been ensured: the archive of the session, created empty on first use.
\<close>

definition getZip :: "captureInfo \<Rightarrow> timeId \<Rightarrow> jszip" where
  "getZip ci t = (case zipArchive (getInfo ci t) of None \<Rightarrow> Map.empty | Some z \<Rightarrow> z)"

definition setZip :: "captureInfo \<Rightarrow> timeId \<Rightarrow> jszip \<Rightarrow> captureInfo" where
  "setZip ci t z = ci(t \<mapsto> (getInfo ci t)\<lparr>zipArchive := Some z\<rparr>)"

text \<open>\<^verbatim>\<open>zip.file(name, data, {compression: ...})\<close>: entries are keyed by path, the last write wins.\<close>

definition zipFile :: "jszip \<Rightarrow> string \<Rightarrow> blob \<Rightarrow> compression \<Rightarrow> jszip" where
  "zipFile z name b c = z(name \<mapsto> \<lparr>ze_data = b, ze_compression = c\<rparr>)"

subsection \<open>The download coordinator, as far as the packager sees it\<close>

text \<open>
  \<^verbatim>\<open>capturer.saveBlob\<close> hands \<^verbatim>\<open>capturer.saveUrl\<close> an object URL of the blob, and
  \<^verbatim>\<open>saveUrl\<close> calls \<^verbatim>\<open>chrome.downloads.download\<close>; the promise settles when the
  browser reports the download complete (with the base name of the final path) or
  failed, and an entry with \<open>autoErase\<close> is then erased from the download history.
  The browser's answer to a request is a parameter, and so is the archive writer's
  \<^verbatim>\<open>zip.generateAsync\<close>.
\<close>

record download =
  dl_blob :: blob
  dl_filename :: string
  dl_conflictAction :: string
  dl_saveAs :: bool
  dl_src :: string
  dl_autoErase :: bool

datatype outcome = Complete string | Interrupted error | Stalled

record browser =
  downloadOutcome :: "download \<Rightarrow> outcome"
  generateAsync :: "jszip \<Rightarrow> error + blob"

record saveParams =
  sp_blob :: blob
  sp_directory :: string
  sp_filename :: string
  sp_sourceUrl :: string
  sp_autoErase :: bool
  sp_savePrompt :: bool

definition saveUrl :: "saveParams \<Rightarrow> download" where
  "saveUrl p =
     \<lparr>dl_blob = sp_blob p,
      dl_filename = (if sp_directory p \<noteq> [] then sp_directory p @ ''/'' else []) @ sp_filename p,
      dl_conflictAction = ''uniquify'',
      dl_saveAs = sp_savePrompt p,
      dl_src = sp_sourceUrl p,
      dl_autoErase = sp_autoErase p\<rparr>"

definition saveBlob :: "browser \<Rightarrow> saveParams \<Rightarrow> download \<times> outcome" where
  "saveBlob br p = (saveUrl p, downloadOutcome br (saveUrl p))"

subsection \<open>capturer.downloadBlob\<close>

text \<open>
  The test \<^verbatim>\<open>/^text\/|\b(?:xml|json|javascript)\b/.test(blob.type)\<close>. A word character
  of a JavaScript regular expression is one of \<^verbatim>\<open>[A-Za-z0-9_]\<close>; \<^verbatim>\<open>\b\<close> holds at a
  position where exactly one of the two neighbours is a word character. The test
  succeeds when one of the alternatives matches at some start position.
\<close>

definition isWordChar :: "char \<Rightarrow> bool" where
  "isWordChar c =
     (let n = (of_char c :: nat)
      in (48 \<le> n \<and> n \<le> 57) \<or> (65 \<le> n \<and> n \<le> 90) \<or> n = 95 \<or> (97 \<le> n \<and> n \<le> 122))"

definition wordBoundary :: "string \<Rightarrow> nat \<Rightarrow> bool" where
  "wordBoundary s i =
     ((0 < i \<and> i \<le> length s \<and> isWordChar (s ! (i - 1))) \<noteq> (i < length s \<and> isWordChar (s ! i)))"

definition literalAt :: "string \<Rightarrow> string \<Rightarrow> nat \<Rightarrow> bool" where
  "literalAt w s i = (take (length w) (drop i s) = w)"

definition compressibleWords :: "string list" where
  "compressibleWords = [''xml'', ''json'', ''javascript'']"

definition compressibleType :: "string \<Rightarrow> bool" where
  "compressibleType s =
     list_ex (\<lambda>i. (i = 0 \<and> literalAt ''text/'' s i)
               \<or> (wordBoundary s i
                  \<and> list_ex (\<lambda>w. literalAt w s i \<and> wordBoundary s (i + length w)) compressibleWords))
       [0..<Suc (length s)]"

record blobParams =
  bp_blob :: blob
  bp_filename :: "string option"
  bp_sourceUrl :: string
  bp_settings :: settings
  bp_options :: options

definition zipCompression :: "blob \<Rightarrow> compression" where
  "zipCompression b = (if compressibleType (blob_type b) \<and> 128 \<le> blob_size b then DEFLATE 9 else STORE)"

text \<open>
  JavaScript's \<^verbatim>\<open>a + b\<close> on a file name that is \<^verbatim>\<open>undefined\<close> yields the text
  "undefined"; \<open>str\<close> is that conversion.
\<close>

definition str :: "string option \<Rightarrow> string" where
  "str v = (case v of None \<Rightarrow> ''undefined'' | Some s \<Rightarrow> s)"

text \<open>\<^verbatim>\<open>dataUri.replace(";", r)\<close> with a text pattern: the first occurrence only.\<close>

fun replaceFirst :: "char \<Rightarrow> string \<Rightarrow> string \<Rightarrow> string" where
  "replaceFirst c r [] = []"
| "replaceFirst c r (x # xs) = (if x = c then r @ xs else x # replaceFirst c r xs)"

text \<open>
  The result of \<open>downloadBlob\<close>: the registry after the call, the downloads it started,
  and what its promise settles with (\<open>None\<close>: it never settles; \<open>Inl\<close>: it rejects).
\<close>

definition downloadBlob ::
  "scrapbook \<Rightarrow> browser \<Rightarrow> captureInfo \<Rightarrow> blobParams
     \<Rightarrow> captureInfo \<times> download list \<times> (error + response) option" where
  "downloadBlob sb br ci p =
     (let b = bp_blob p; filename = bp_filename p; sourceUrl = bp_sourceUrl p;
          opts = bp_options p;
          sourceUrlHash = snd (splitUrlByAnchor sb sourceUrl);
          t = timeId (bp_settings p)
      in if saveAs opts = ''singleHtml'' then
           (case readFileAsDataURL sb b of
              Inl ex \<Rightarrow> (ci, [], Some (Inl ex))
            | Inr dataUri \<Rightarrow>
                let dataUri' =
                      (case filename of
                         None \<Rightarrow> dataUri
                       | Some f \<Rightarrow>
                           if f = [] then dataUri
                           else replaceFirst CHR '';'' ('';filename='' @ encodeURIComponent f @ '';'') dataUri)
                in (ci, [], Some (Inr \<lparr>r_timeId = None, r_sourceUrl = None, r_targetDir = None,
                                        r_filename = None, r_url = dataUri' @ sourceUrlHash,
                                        r_error = None\<rparr>)))
         else if saveAs opts = ''zip'' then
           (let ci1 = ensureInfo ci t;
                z = zipFile (getZip ci1 t) (str filename) b (zipCompression b)
            in (setZip ci1 t z, [],
                Some (Inr \<lparr>r_timeId = None, r_sourceUrl = None, r_targetDir = None,
                           r_filename = filename,
                           r_url = escapeFilename sb (str filename) @ sourceUrlHash,
                           r_error = None\<rparr>)))
         else if saveAs opts = ''maff'' then
           (let ci1 = ensureInfo ci t;
                z = zipFile (getZip ci1 t) (t @ ''/'' @ str filename) b (zipCompression b)
            in (setZip ci1 t z, [],
                Some (Inr \<lparr>r_timeId = None, r_sourceUrl = None, r_targetDir = None,
                           r_filename = filename,
                           r_url = escapeFilename sb (str filename) @ sourceUrlHash,
                           r_error = None\<rparr>)))
         else
           (let targetDir = scrapbookFolder opts @ ''/data/'' @ t;
                (d, out) = saveBlob br \<lparr>sp_blob = b, sp_directory = targetDir,
                                        sp_filename = str filename, sp_sourceUrl = sourceUrl,
                                        sp_autoErase = True, sp_savePrompt = False\<rparr>
            in (ci, [d],
                (case out of
                   Stalled \<Rightarrow> None
                 | Interrupted ex \<Rightarrow> Some (Inl ex)
                 | Complete fn \<Rightarrow>
                     Some (Inr \<lparr>r_timeId = Some t, r_sourceUrl = Some sourceUrl,
                                r_targetDir = Some targetDir, r_filename = Some fn,
                                r_url = escapeFilename sb fn @ sourceUrlHash,
                                r_error = None\<rparr>)))))"

subsection \<open>capturer.saveDocument\<close>

record docData =
  d_mime :: string
  d_charset :: "string option"
  d_content :: string
  d_title :: string

record docParams =
  dp_data :: docData
  dp_documentName :: string
  dp_sourceUrl :: string
  dp_settings :: settings
  dp_options :: options

definition docExt :: "docData \<Rightarrow> string" where
  "docExt d = ''.'' @ (if d_mime d = ''application/xhtml+xml'' then ''xhtml'' else ''html'')"

definition redirectStub :: string where
  "redirectStub =
     ''<meta charset=\"UTF-8\"><meta http-equiv=\"refresh\" content=\"0;url=index.xhtml\">''"

text \<open>
  The manifest \<^verbatim>\<open>index.rdf\<close> of a MAFF archive, as the template literal builds it:
  five lines \<^verbatim>\<open><MAF:name RDF:resource="value"/>\<close> between a fixed head and a fixed tail.
\<close>

definition rdfField :: "string \<Rightarrow> string \<Rightarrow> string" where
  "rdfField name v = ''    <MAF:'' @ name @ '' RDF:resource=\"'' @ v @ ''\"/>\<newline>''"

definition rdfContent :: "scrapbook \<Rightarrow> string \<Rightarrow> string \<Rightarrow> timeId \<Rightarrow> string \<Rightarrow> string" where
  "rdfContent sb sourceUrl title t filename =
     (''<?xml version=\"1.0\"?>\<newline>'' @
      ''<RDF:RDF xmlns:MAF=\"http://maf.mozdev.org/metadata/rdf#\"\<newline>'' @
      ''         xmlns:NC=\"http://home.netscape.com/NC-rdf#\"\<newline>'' @
      ''         xmlns:RDF=\"http://www.w3.org/1999/02/22-rdf-syntax-ns#\">\<newline>'' @
      ''  <RDF:Description RDF:about=\"urn:root\">\<newline>'') @
     rdfField ''originalurl'' (escapeHtml sb sourceUrl) @
     rdfField ''title'' (escapeHtml sb title) @
     rdfField ''archivetime'' (escapeHtml sb (idToUTCString sb t)) @
     rdfField ''indexfilename'' filename @
     rdfField ''charset'' ''UTF-8'' @
     (''  </RDF:Description>\<newline>'' @
      ''</RDF:RDF>\<newline>'')"

definition plainResponse :: "string \<Rightarrow> response" where
  "plainResponse u =
     \<lparr>r_timeId = None, r_sourceUrl = None, r_targetDir = None, r_filename = None,
      r_url = u, r_error = None\<rparr>"

text \<open>\<^verbatim>\<open>{url: capturer.getErrorUrl(sourceUrl, options), error: ex}\<close>\<close>

definition errorResponse :: "scrapbook \<Rightarrow> string \<Rightarrow> options \<Rightarrow> error \<Rightarrow> response" where
  "errorResponse sb sourceUrl opts ex =
     (plainResponse (getErrorUrl sb sourceUrl opts))\<lparr>r_error := Some ex\<rparr>"

text \<open>
  \<^verbatim>\<open>{timeId, sourceUrl, targetDir, filename, url: scrapbook.escapeFilename(filename) + sourceUrlHash}\<close>
\<close>

definition savedResponse ::
  "scrapbook \<Rightarrow> timeId \<Rightarrow> string \<Rightarrow> string \<Rightarrow> string \<Rightarrow> string \<Rightarrow> response" where
  "savedResponse sb t sourceUrl targetDir sourceUrlHash filename =
     \<lparr>r_timeId = Some t, r_sourceUrl = Some sourceUrl, r_targetDir = Some targetDir,
      r_filename = Some filename, r_url = escapeFilename sb filename @ sourceUrlHash,
      r_error = None\<rparr>"

text \<open>
  \<^verbatim>\<open>saveBlob(...).then((filename) => {...})\<close> under the \<^verbatim>\<open>.catch\<close> that ends
  \<open>saveDocument\<close>: a failed download becomes the error response.
\<close>

definition afterSave ::
  "scrapbook \<Rightarrow> string \<Rightarrow> options \<Rightarrow> outcome \<Rightarrow> (string \<Rightarrow> response) \<Rightarrow> response option" where
  "afterSave sb sourceUrl opts out k =
     (case out of
        Stalled \<Rightarrow> None
      | Interrupted ex \<Rightarrow> Some (errorResponse sb sourceUrl opts ex)
      | Complete fn \<Rightarrow> Some (k fn))"

text \<open>
  The name under which the finished archive (or the single HTML file) of the main frame
  is downloaded: \<open>(targetDir, filename, savePrompt)\<close>. \<open>fix\<close> appends the extension
  to a name made from the title.
\<close>

definition mainTarget ::
  "scrapbook \<Rightarrow> options \<Rightarrow> timeId \<Rightarrow> docData \<Rightarrow> string \<Rightarrow> string \<Rightarrow> (string \<Rightarrow> string)
     \<Rightarrow> string \<times> string \<times> bool" where
  "mainTarget sb opts t d sourceUrl ext fix =
     (if saveInScrapbook opts then (scrapbookFolder opts @ ''/data'', t @ ext, False)
      else ([],
            fix (validateFilename sb
                   (if d_title d \<noteq> [] then d_title d else urlToFilename sb sourceUrl)
                   (saveAsciiFilename opts)),
            True))"

text \<open>The main frame of an archive: \<^verbatim>\<open>zip.generateAsync\<close>, then the download of the archive.\<close>

definition saveArchive ::
  "scrapbook \<Rightarrow> browser \<Rightarrow> captureInfo \<Rightarrow> docParams \<Rightarrow> jszip \<Rightarrow> string
     \<Rightarrow> captureInfo \<times> download list \<times> response option" where
  "saveArchive sb br ci p z ext =
     (let d = dp_data p; sourceUrl = dp_sourceUrl p; opts = dp_options p;
          t = timeId (dp_settings p);
          sourceUrlHash = snd (splitUrlByAnchor sb sourceUrl)
      in case generateAsync br z of
           Inl ex \<Rightarrow> (ci, [], Some (errorResponse sb sourceUrl opts ex))
         | Inr zipBlob \<Rightarrow>
             let (targetDir, filename, savePrompt) =
                   mainTarget sb opts t d sourceUrl ext (\<lambda>f. f @ ext);
                 (dl, out) = saveBlob br
                   \<lparr>sp_blob = zipBlob, sp_directory = targetDir, sp_filename = filename,
                    sp_sourceUrl = sourceUrl, sp_autoErase = False, sp_savePrompt = savePrompt\<rparr>
             in (ci, [dl],
                 afterSave sb sourceUrl opts out (savedResponse sb t sourceUrl targetDir sourceUrlHash)))"

definition saveDocument ::
  "scrapbook \<Rightarrow> browser \<Rightarrow> captureInfo \<Rightarrow> docParams
     \<Rightarrow> captureInfo \<times> download list \<times> response option" where
  "saveDocument sb br ci p =
     (let d = dp_data p; sourceUrl = dp_sourceUrl p; st = dp_settings p; opts = dp_options p;
          sourceUrlHash = snd (splitUrlByAnchor sb sourceUrl);
          t = timeId st;
          ext = docExt d
      in if saveAs opts = ''singleHtml'' then
           (if \<not> frameIsMain st then
              (ci, [],
               Some ((plainResponse (stringToDataUri sb (d_content d) (d_mime d) (d_charset d)))
                       \<lparr>r_timeId := Some t, r_sourceUrl := Some sourceUrl\<rparr>))
            else
              (let (targetDir, filename, savePrompt) =
                     mainTarget sb opts t d sourceUrl ext (\<lambda>f. if endsWith f ext then f else f @ ext);
                   (dl, out) = saveBlob br
                     \<lparr>sp_blob = Blob (d_content d) (d_mime d), sp_directory = targetDir,
                      sp_filename = filename, sp_sourceUrl = sourceUrl,
                      sp_autoErase = False, sp_savePrompt = savePrompt\<rparr>
               in (ci, [dl],
                   afterSave sb sourceUrl opts out
                     (savedResponse sb t sourceUrl targetDir sourceUrlHash))))
         else if saveAs opts = ''zip'' then
           (let filename = validateFilename sb (dp_documentName p @ ext) (saveAsciiFilename opts);
                ci1 = ensureInfo ci t;
                z1 = zipFile (getZip ci1 t) filename (Blob (d_content d) (d_mime d)) (DEFLATE 9)
            in if \<not> frameIsMain st then
                 (setZip ci1 t z1, [],
                  Some ((plainResponse (escapeFilename sb filename @ sourceUrlHash))
                          \<lparr>r_timeId := Some t, r_sourceUrl := Some sourceUrl,
                           r_filename := Some filename\<rparr>))
               else
                 (let z2 = (if ext = ''.xhtml''
                            then zipFile z1 ''index.html'' (Blob redirectStub ''text/html'') (DEFLATE 9)
                            else z1)
                  in saveArchive sb br (setZip ci1 t z2) p z2 ''.htz''))
         else if saveAs opts = ''maff'' then
           (let filename = validateFilename sb (dp_documentName p @ ext) (saveAsciiFilename opts);
                ci1 = ensureInfo ci t;
                z1 = zipFile (getZip ci1 t) (t @ ''/'' @ filename)
                       (Blob (d_content d) (d_mime d)) (DEFLATE 9)
            in if \<not> frameIsMain st then
                 (setZip ci1 t z1, [],
                  Some ((plainResponse (escapeFilename sb filename @ sourceUrlHash))
                          \<lparr>r_timeId := Some t, r_sourceUrl := Some sourceUrl,
                           r_filename := Some filename\<rparr>))
               else
                 (let z2 = (if ext = ''.xhtml''
                            then zipFile z1 (t @ ''/'' @ ''index.html'')
                                   (Blob redirectStub ''text/html'') (DEFLATE 9)
                            else z1);
                      z3 = zipFile z2 (t @ ''/'' @ ''index.rdf'')
                             (Blob (rdfContent sb sourceUrl (d_title d) t filename)
                                ''application/rdf+xml'')
                             (DEFLATE 9)
                  in saveArchive sb br (setZip ci1 t z3) p z3 ''.maff''))
         else
           (let targetDir = scrapbookFolder opts @ ''/data/'' @ t;
                filename = validateFilename sb (dp_documentName p @ ext) (saveAsciiFilename opts);
                (dl1, out1) = saveBlob br
                  \<lparr>sp_blob = Blob (d_content d) (d_mime d), sp_directory = targetDir,
                   sp_filename = filename, sp_sourceUrl = sourceUrl,
                   sp_autoErase = (\<not> frameIsMain st \<or> ext = ''.xhtml''),
                   sp_savePrompt = False\<rparr>
            in case out1 of
                 Stalled \<Rightarrow> (ci, [dl1], None)
               | Interrupted ex \<Rightarrow> (ci, [dl1], Some (errorResponse sb sourceUrl opts ex))
               | Complete fn \<Rightarrow>
                   if frameIsMain st \<and> ext = ''.xhtml'' then
                     (let (dl2, out2) = saveBlob br
                            \<lparr>sp_blob = Blob redirectStub ''text/html'', sp_directory = targetDir,
                             sp_filename = ''index.html'', sp_sourceUrl = sourceUrl,
                             sp_autoErase = False, sp_savePrompt = False\<rparr>
                      in (ci, [dl1, dl2],
                          afterSave sb sourceUrl opts out2
                            (savedResponse sb t sourceUrl targetDir sourceUrlHash)))
                   else (ci, [dl1], Some (savedResponse sb t sourceUrl targetDir sourceUrlHash fn))))"

subsection \<open>Packaging a session\<close>









text \<open>\<open>sub\<close> occurs in \<open>s\<close>.\<close>

definition contains :: "string \<Rightarrow> string \<Rightarrow> bool" where
  "contains s sub = (\<exists>pre suf. s = pre @ sub @ suf)"

text \<open>
  \<open>w\<close> occurs in \<open>s\<close> as a whole word: no word character stands directly before or
  after the occurrence.
\<close>

definition wholeWordIn :: "string \<Rightarrow> string \<Rightarrow> bool" where
  "wholeWordIn w s =
     (\<exists>pre suf. s = pre @ w @ suf
        \<and> (pre = [] \<or> \<not> isWordChar (last pre))
        \<and> (suf = [] \<or> \<not> isWordChar (hd suf)))"

subsection \<open>capturer.getUniqueFilename\<close>

text \<open>\<^verbatim>\<open>capturer.defaultFilesSet = new Set(["index.rdf", "index.dat"])\<close>\<close>

definition defaultFilesSet :: "string list" where
  "defaultFilesSet = [''index.rdf'', ''index.dat'']"

text \<open>
  \<^verbatim>\<open>capturer.captureInfo.get(timeId).files || new Set(capturer.defaultFilesSet)\<close>,
  \<^verbatim>\<open>files.add(x)\<close> and the assignment back to the entry.
\<close>

definition getFiles :: "captureInfo \<Rightarrow> timeId \<Rightarrow> string list" where
  "getFiles ci t = (case files (getInfo ci t) of None \<Rightarrow> defaultFilesSet | Some fs \<Rightarrow> fs)"

definition setAdd :: "string list \<Rightarrow> string \<Rightarrow> string list" where
  "setAdd fs x = (if x \<in> set fs then fs else fs @ [x])"

definition setFiles :: "captureInfo \<Rightarrow> timeId \<Rightarrow> string list \<Rightarrow> captureInfo" where
  "setFiles ci t fs = ci(t \<mapsto> (getInfo ci t)\<lparr>files := Some fs\<rparr>)"

text \<open>
  The loop \<^verbatim>\<open>while (files.has(newFilenameCI)) { newFilename = newFilenameBase + "-" + (++count) + newFilenameExt; ... }\<close>
  with its variables \<open>newFilename\<close> and \<open>count\<close>. The count is a natural number: a
  JavaScript number counts exactly up to \<open>2^53\<close>, far beyond the size of any Set.
\<close>

function uniquify :: "scrapbook \<Rightarrow> string list \<Rightarrow> string \<Rightarrow> string \<Rightarrow> string \<Rightarrow> nat \<Rightarrow> string" where
  "uniquify sb fs newFilenameBase newFilenameExt newFilename count =
     (if toLowerCase sb newFilename \<in> set fs
      then uniquify sb fs newFilenameBase newFilenameExt
             (newFilenameBase @ ''-'' @ numToString (Suc count) @ newFilenameExt) (Suc count)
      else newFilename)"
  by pat_completeness auto

lemma candidate_inj:
  "toLowerCase sb (b @ ''-'' @ numToString m @ e) = toLowerCase sb (b @ ''-'' @ numToString n @ e) \<Longrightarrow> m = n"
  using applyCase [of "lowerCase sb"] unfolding toLowerCase_def by blast

lemma finite_candidates:
  "finite {n. toLowerCase sb (b @ ''-'' @ numToString n @ e) \<in> set fs}"
proof -
  have "inj (\<lambda>n. toLowerCase sb (b @ ''-'' @ numToString n @ e))"
    by (rule injI) (rule candidate_inj)
  then have "finite ((\<lambda>n. toLowerCase sb (b @ ''-'' @ numToString n @ e)) -` set fs)"
    by (intro finite_vimageI) simp_all
  then show ?thesis by (simp add: vimage_def)
qed

text \<open>
  The loop ends: the candidates \<open>base-1.ext\<close>, \<open>base-2.ext\<close>, ... are pairwise different
  after lowercasing, the Set is finite, and each turn uses up one candidate it holds.
\<close>

termination uniquify
proof (relation "measure (\<lambda>(sb, fs, b, e, nf, count).
          if toLowerCase sb nf \<in> set fs
          then Suc (card {n. count < n \<and> toLowerCase sb (b @ ''-'' @ numToString n @ e) \<in> set fs})
          else 0)")
  show "wf (measure (\<lambda>(sb, fs, b, e, nf, count).
          if toLowerCase sb nf \<in> set fs
          then Suc (card {n. count < n \<and> toLowerCase sb (b @ ''-'' @ numToString n @ e) \<in> set fs})
          else 0))" by simp
next
  fix sb fs b e nf and count :: nat
  assume "toLowerCase sb nf \<in> set fs"
  let ?P = "\<lambda>n. toLowerCase sb (b @ ''-'' @ numToString n @ e) \<in> set fs"
  have fin: "finite {n. count < n \<and> ?P n}"
    using finite_candidates [of sb b e fs] by (rule rev_finite_subset) auto
  have "?P (Suc count) \<Longrightarrow> card {n. Suc count < n \<and> ?P n} < card {n. count < n \<and> ?P n}"
    by (rule psubset_card_mono [OF fin]) auto
  then show "((sb, fs, b, e, b @ ''-'' @ numToString (Suc count) @ e, Suc count), (sb, fs, b, e, nf, count))
          \<in> measure (\<lambda>(sb, fs, b, e, nf, count).
          if toLowerCase sb nf \<in> set fs
          then Suc (card {n. count < n \<and> toLowerCase sb (b @ ''-'' @ numToString n @ e) \<in> set fs})
          else 0)"
    using \<open>toLowerCase sb nf \<in> set fs\<close> by simp
qed


declare uniquify.simps [simp del]

text \<open>\<^verbatim>\<open>filename || "untitled"\<close>: an absent and an empty name are both falsy.\<close>

definition orUntitled :: "string option \<Rightarrow> string" where
  "orUntitled filename = (case filename of None \<Rightarrow> ''untitled'' | Some f \<Rightarrow> if f = [] then ''untitled'' else f)"

text \<open>
  \<^verbatim>\<open>var [newFilenameBase, newFilenameExt] = scrapbook.filenameParts(newFilename);\<close>
  \<^verbatim>\<open>newFilenameBase = scrapbook.crop(scrapbook.crop(newFilenameBase, 240, true), 128);\<close>
  \<^verbatim>\<open>newFilenameExt = newFilenameExt ? "." + newFilenameExt : "";\<close>
\<close>

definition newFilenameBase :: "scrapbook \<Rightarrow> string option \<Rightarrow> string" where
  "newFilenameBase sb filename =
     crop sb (crop sb (fst (filenameParts sb (orUntitled filename))) 240 True) 128 False"

definition newFilenameExt :: "scrapbook \<Rightarrow> string option \<Rightarrow> string" where
  "newFilenameExt sb filename =
     (let e = snd (filenameParts sb (orUntitled filename)) in if e \<noteq> [] then ''.'' @ e else [])"

definition getUniqueFilename ::
  "scrapbook \<Rightarrow> captureInfo \<Rightarrow> timeId \<Rightarrow> string option \<Rightarrow> string \<times> captureInfo" where
  "getUniqueFilename sb ci t filename =
     (let ci1 = ensureInfo ci t;
          fs = getFiles ci1 t;
          b = newFilenameBase sb filename;
          e = newFilenameExt sb filename;
          newFilename = uniquify sb fs b e (b @ e) 0
      in (newFilename, setFiles ci1 t (setAdd fs (toLowerCase sb newFilename))))"

text \<open>A sequence of allocations in one session, each on the registry the one before left.\<close>

fun allocate ::
  "scrapbook \<Rightarrow> captureInfo \<Rightarrow> timeId \<Rightarrow> string option list \<Rightarrow> string list \<times> captureInfo" where
  "allocate sb ci t [] = ([], ci)"
| "allocate sb ci t (f # fs) =
     (let (n, ci1) = getUniqueFilename sb ci t f;
          (ns, ci2) = allocate sb ci1 t fs
      in (n # ns, ci2))"

text \<open>
  The names of a session always hold the reserved ones: the Set is created from
  \<open>defaultFilesSet\<close> and nothing is ever removed from it.
\<close>

definition reservedKept :: "captureInfo \<Rightarrow> timeId \<Rightarrow> bool" where
  "reservedKept ci t = (set defaultFilesSet \<subseteq> set (getFiles ci t))"

subsection \<open>The access deduplicator: capturer.downloadFile and capturer.captureUrl\<close>

text \<open>
  \<^verbatim>\<open>capturer.getAccessToken\<close>:
  \<^verbatim>\<open>scrapbook.sha1(scrapbook.splitUrlByAnchor(url)[0] + "\t" + (method || ""), "TEXT")\<close>.
\<close>

definition getAccessToken :: "scrapbook \<Rightarrow> string \<Rightarrow> string option \<Rightarrow> string" where
  "getAccessToken sb url method =
     sha1 sb (fst (splitUrlByAnchor sb url) @ [CHR 0x09] @ (case method of None \<Rightarrow> [] | Some m \<Rightarrow> m))"

text \<open>
  The promise \<open>accessCurrent\<close> that the access map holds is the one \<^verbatim>\<open>.catch\<close> returns.
  Its handler only logs and returns \<^verbatim>\<open>{url: capturer.getErrorUrl(sourceUrl, options), error: ex}\<close>,
  so a rejection of the inner promise fulfils \<open>accessCurrent\<close> with that record. A
  promise is \<open>Pending\<close>, or it was resolved with an earlier entry of the access map
  (\<open>Adopted\<close>: it settles as that promise does), or it is fulfilled (\<open>Settled\<close>).
  Promises are numbered in the order in which they are created.
\<close>

datatype promise = Pending | Adopted nat | Settled response

text \<open>
  What \<open>accessCurrent\<close> waits for: the response headers of its request (\<open>Sent\<close>), the
  end of the request (\<open>Received\<close>), the promise it was resolved with in \<^verbatim>\<open>onload\<close>
  (\<open>Chained\<close>: the rewriting and \<open>downloadBlob\<close>, or the capture of the loaded
  document), or nothing more (\<open>Closed\<close>).
\<close>

datatype xstate = Sent | Received | Chained | Closed

datatype kind = ForFile | ForUrl

text \<open>The argument of \<^verbatim>\<open>scrapbook.xhr\<close>.\<close>

record xhr =
  xhr_url :: string
  xhr_responseType :: string
  xhr_referer :: "string option"

text \<open>One run of the executor of \<open>accessCurrent\<close>: the variables of its closure and its promise.\<close>

record access =
  a_kind :: kind
  a_timeId :: timeId
  a_sourceUrl :: string
  a_sourceUrlMain :: string
  a_rewriteMethod :: "string option"
  a_options :: options
  a_xhr :: "xhr option"
  a_state :: xstate
  a_filename :: "string option"
  a_documentName :: string
  a_promise :: promise

record capturer =
  captureInfo :: captureInfo
  accesses :: "access list"

definition init :: capturer where
  "init = \<lparr>captureInfo = Map.empty, accesses = []\<rparr>"

record params =
  p_url :: string
  p_refUrl :: "string option"
  p_rewriteMethod :: "string option"
  p_settings :: settings
  p_options :: options

text \<open>
  \<^verbatim>\<open>var accessMap = capturer.captureInfo.get(timeId).accessMap = capturer.captureInfo.get(timeId).accessMap || new Map();\<close>
\<close>

definition getAccessMap :: "captureInfo \<Rightarrow> timeId \<Rightarrow> (string \<rightharpoonup> nat)" where
  "getAccessMap ci t = (case accessMap (getInfo ci t) of None \<Rightarrow> Map.empty | Some m \<Rightarrow> m)"

definition setAccessMap :: "captureInfo \<Rightarrow> timeId \<Rightarrow> (string \<rightharpoonup> nat) \<Rightarrow> captureInfo" where
  "setAccessMap ci t m = ci(t \<mapsto> (getInfo ci t)\<lparr>accessMap := Some m\<rparr>)"

text \<open>A value is truthy unless it is \<^verbatim>\<open>undefined\<close> or the empty text.\<close>

definition truthy :: "string option \<Rightarrow> bool" where
  "truthy v = (case v of None \<Rightarrow> False | Some s \<Rightarrow> s \<noteq> [])"

text \<open>\<^verbatim>\<open>if (refUrl) { requestHeaders["X-WebScrapBook-Referer"] = refUrl; }\<close>\<close>

definition referer :: "string option \<Rightarrow> string option" where
  "referer refUrl = (if truthy refUrl then refUrl else None)"

text \<open>
  Resolving and rejecting the inner promise of the \<open>i\<close>-th access. Only a pending
  promise changes; \<open>rejectWith\<close> is the rejection as the \<^verbatim>\<open>.catch\<close> handler turns it
  into the error record.
\<close>

definition setPromise :: "access list \<Rightarrow> nat \<Rightarrow> promise \<Rightarrow> access list" where
  "setPromise as i v = (if a_promise (as ! i) = Pending then as[i := (as ! i)\<lparr>a_promise := v\<rparr>] else as)"

definition resolveWith :: "access list \<Rightarrow> nat \<Rightarrow> response \<Rightarrow> access list" where
  "resolveWith as i r = setPromise as i (Settled r)"

definition rejectWith :: "scrapbook \<Rightarrow> access list \<Rightarrow> nat \<Rightarrow> error \<Rightarrow> access list" where
  "rejectWith sb as i ex =
     setPromise as i (Settled (errorResponse sb (a_sourceUrl (as ! i)) (a_options (as ! i)) ex))"

definition setState :: "access list \<Rightarrow> nat \<Rightarrow> xstate \<Rightarrow> access list" where
  "setState as i x = as[i := (as ! i)\<lparr>a_state := x\<rparr>]"

text \<open>
  \<open>capturer.downloadFile\<close>, up to the return of \<open>accessCurrent\<close>: the promise returned
  and the state afterwards.
\<close>

definition downloadFile :: "scrapbook \<Rightarrow> capturer \<Rightarrow> params \<Rightarrow> nat \<times> capturer" where
  "downloadFile sb s p =
     (let sourceUrl = p_url p;
          sourceUrlMain = fst (splitUrlByAnchor sb sourceUrl);
          t = timeId (p_settings p);
          opts = p_options p;
          ci1 = ensureInfo (captureInfo s) t;
          ci2 = setAccessMap ci1 t (getAccessMap ci1 t);
          accessToken = getAccessToken sb sourceUrlMain (p_rewriteMethod p)
      in case getAccessMap ci2 t accessToken of
           Some accessPrevious \<Rightarrow> (accessPrevious, s\<lparr>captureInfo := ci2\<rparr>)
         | None \<Rightarrow>
             (let accessCurrent = length (accesses s);
                  a = \<lparr>a_kind = ForFile, a_timeId = t, a_sourceUrl = sourceUrl,
                       a_sourceUrlMain = sourceUrlMain, a_rewriteMethod = p_rewriteMethod p,
                       a_options = opts, a_xhr = None, a_state = Closed, a_filename = None,
                       a_documentName = documentName (p_settings p), a_promise = Pending\<rparr>;
                  (a', ci3) =
                    (if startsWith sourceUrlMain ''data:'' then
                       (if saveDataUriAsFile opts \<and> saveAs opts \<noteq> ''singleHtml'' then
                          (case dataUriToFile sb sourceUrlMain of
                             Some (name, file) \<Rightarrow>
                               (let (filename, ci') =
                                      getUniqueFilename sb ci2 t
                                        (Some (validateFilename sb name (saveAsciiFilename opts)))
                                in (a\<lparr>a_state := Chained, a_filename := Some filename\<rparr>, ci'))
                           | None \<Rightarrow>
                               (a\<lparr>a_promise :=
                                     Settled (errorResponse sb sourceUrl opts
                                                (Error ''Malformed data URL.''))\<rparr>, ci2))
                        else (a\<lparr>a_promise := Settled (plainResponse sourceUrl)\<rparr>, ci2))
                     else
                       (a\<lparr>a_xhr := Some \<lparr>xhr_url = sourceUrl, xhr_responseType = ''blob'',
                                         xhr_referer = referer (p_refUrl p)\<rparr>,
                          a_state := Sent\<rparr>, ci2))
              in (accessCurrent,
                  \<lparr>captureInfo = setAccessMap ci3 t ((getAccessMap ci3 t)(accessToken \<mapsto> accessCurrent)),
                   accesses = accesses s @ [a']\<rparr>)))"

text \<open>\<open>capturer.captureUrl\<close>, likewise; its rewrite method is the text "captureUrl".\<close>

definition captureUrl :: "scrapbook \<Rightarrow> capturer \<Rightarrow> params \<Rightarrow> nat \<times> capturer" where
  "captureUrl sb s p =
     (let sourceUrl = p_url p;
          sourceUrlMain = fst (splitUrlByAnchor sb sourceUrl);
          t = timeId (p_settings p);
          ci1 = ensureInfo (captureInfo s) t;
          ci2 = setAccessMap ci1 t (getAccessMap ci1 t);
          rewriteMethod = Some ''captureUrl'';
          accessToken = getAccessToken sb sourceUrlMain rewriteMethod
      in case getAccessMap ci2 t accessToken of
           Some accessPrevious \<Rightarrow> (accessPrevious, s\<lparr>captureInfo := ci2\<rparr>)
         | None \<Rightarrow>
             (let accessCurrent = length (accesses s);
                  a = \<lparr>a_kind = ForUrl, a_timeId = t, a_sourceUrl = sourceUrl,
                       a_sourceUrlMain = sourceUrlMain, a_rewriteMethod = rewriteMethod,
                       a_options = p_options p,
                       a_xhr = Some \<lparr>xhr_url = (if startsWith sourceUrl ''data:''
                                                  then fst (splitUrlByAnchor sb sourceUrl)
                                                  else sourceUrl),
                                      xhr_responseType = ''document'',
                                      xhr_referer = referer (p_refUrl p)\<rparr>,
                       a_state = Sent, a_filename = None,
                       a_documentName = documentName (p_settings p), a_promise = Pending\<rparr>
              in (accessCurrent,
                  \<lparr>captureInfo = setAccessMap ci2 t ((getAccessMap ci2 t)(accessToken \<mapsto> accessCurrent)),
                   accesses = accesses s @ [a]\<rparr>)))"

text \<open>
  What \<^verbatim>\<open>onreadystatechange\<close> sees at \<^verbatim>\<open>readyState === 2\<close>: the response URL, the status
  and the two headers as \<^verbatim>\<open>scrapbook.parseHeaderContentDisposition\<close> and
  \<^verbatim>\<open>scrapbook.parseHeaderContentType\<close> read them (the type with the \<^verbatim>\<open>filename\<close>
  parameter, the type with the \<^verbatim>\<open>charset\<close> parameter; \<open>None\<close> for a header that is
  absent or empty).
\<close>

record headerInfo =
  h_responseURL :: string
  h_status :: nat
  h_contentDisposition :: "(string \<times> string option) option"
  h_contentType :: "(string \<times> string option) option"

definition headersFilename :: "headerInfo \<Rightarrow> string option" where
  "headersFilename h =
     (if h_status h \<noteq> 0 then (case h_contentDisposition h of None \<Rightarrow> None | Some (ty, fn) \<Rightarrow> fn)
      else None)"

definition headersContentType :: "headerInfo \<Rightarrow> string option" where
  "headersContentType h =
     (if h_status h \<noteq> 0 then (case h_contentType h of None \<Rightarrow> None | Some (ty, cs) \<Rightarrow> Some ty)
      else None)"

text \<open>
  The first part of the handler, the same text in both functions: "check for previous
  access if redirected". \<open>Inl\<close>: the promise was resolved with the previous access and the
  request aborted (the handler returns); \<open>Inr\<close>: the handler goes on.
\<close>

definition redirectCheck :: "scrapbook \<Rightarrow> capturer \<Rightarrow> nat \<Rightarrow> headerInfo \<Rightarrow> capturer + capturer" where
  "redirectCheck sb s i h =
     (let a = accesses s ! i;
          t = a_timeId a;
          responseUrlMain = fst (splitUrlByAnchor sb (h_responseURL h))
      in if responseUrlMain \<noteq> a_sourceUrlMain a then
           (let accessToken = getAccessToken sb responseUrlMain (a_rewriteMethod a)
            in case getAccessMap (captureInfo s) t accessToken of
                 Some accessPrevious \<Rightarrow>
                   Inl (s\<lparr>accesses := setState (setPromise (accesses s) i (Adopted accessPrevious)) i Closed\<rparr>)
               | None \<Rightarrow>
                   Inr (s\<lparr>captureInfo :=
                           setAccessMap (captureInfo s) t
                             ((getAccessMap (captureInfo s) t)(accessToken \<mapsto> i))\<rparr>))
         else Inr s)"

text \<open>The rest of the handler of \<open>downloadFile\<close>: "determine the filename".\<close>

definition nameFile :: "scrapbook \<Rightarrow> capturer \<Rightarrow> nat \<Rightarrow> headerInfo \<Rightarrow> capturer" where
  "nameFile sb s i h =
     (let a = accesses s ! i;
          opts = a_options a;
          filename0 = (if truthy (headersFilename h) then the (headersFilename h)
                       else urlToFilename sb (a_sourceUrl a));
          filename1 =
            (if truthy (headersContentType h) then
               (let (base, extension) = filenameParts sb filename0
                in if extension = [] then
                     (let extension' = mimeExtension sb (the (headersContentType h))
                      in if extension' \<noteq> [] then base @ ''.'' @ extension' else filename0)
                   else filename0)
             else filename0);
          filename2 = validateFilename sb filename1 (saveAsciiFilename opts);
          (filename, ci) =
            (if saveAs opts \<noteq> ''singleHtml''
             then getUniqueFilename sb (captureInfo s) (a_timeId a) (Some filename2)
             else (filename2, captureInfo s))
      in \<lparr>captureInfo = ci,
          accesses = (accesses s)[i := a\<lparr>a_filename := Some filename, a_state := Received\<rparr>]\<rparr>)"

text \<open>
  The rest of the handler of \<open>captureUrl\<close>: "generate a documentName if not specified".
  In \<^verbatim>\<open>headers.filename || sourceUrl.startsWith("data:") ? a : b\<close> the condition is the
  whole disjunction; when \<^verbatim>\<open>scrapbook.dataUriToFile\<close> yields nothing, reading its
  \<^verbatim>\<open>name\<close> throws inside the handler and the document name stays as it was.
\<close>

fun stripExtension :: "scrapbook \<Rightarrow> string \<Rightarrow> string list \<Rightarrow> string" where
  "stripExtension sb filename [] = filename"
| "stripExtension sb filename (e # exts) =
     (let ext = toLowerCase sb (''.'' @ e)
      in if endsWith (toLowerCase sb filename) ext
         then take (length filename - length ext) filename
         else stripExtension sb filename exts)"

definition generatedName :: "scrapbook \<Rightarrow> access \<Rightarrow> headerInfo \<Rightarrow> string option" where
  "generatedName sb a h =
     (if a_documentName a \<noteq> [] then None
      else
        (let filename0 =
               (if truthy (headersFilename h) \<or> startsWith (a_sourceUrl a) ''data:''
                then (case dataUriToFile sb (fst (splitUrlByAnchor sb (a_sourceUrl a))) of
                        None \<Rightarrow> None
                      | Some (name, file) \<Rightarrow> Some name)
                else Some (urlToFilename sb (a_sourceUrl a)))
         in case filename0 of
              None \<Rightarrow> None
            | Some filename \<Rightarrow>
                (let mime = (if truthy (headersContentType h) then the (headersContentType h)
                             else if mimeLookup sb filename \<noteq> [] then mimeLookup sb filename
                             else ''text/html'')
                 in if mime \<in> set [''text/html'', ''application/xhtml+xml'']
                    then Some (stripExtension sb filename (mimeAllExtensions sb mime))
                    else Some filename)))"

definition nameDocument :: "scrapbook \<Rightarrow> capturer \<Rightarrow> nat \<Rightarrow> headerInfo \<Rightarrow> capturer" where
  "nameDocument sb s i h =
     (let a = accesses s ! i
      in s\<lparr>accesses :=
             (accesses s)[i := a\<lparr>a_documentName := (case generatedName sb a h of
                                                        None \<Rightarrow> a_documentName a
                                                      | Some n \<Rightarrow> n),
                                  a_state := Received\<rparr>]\<rparr>)"

text \<open>
  The events of the transport and of the follow-up work. An event for a request that does
  not wait for it changes nothing: a request reports its headers once, then ends with
  \<^verbatim>\<open>onload\<close> or \<^verbatim>\<open>onerror\<close>, and reports nothing after \<^verbatim>\<open>xhrAbort()\<close>.
\<close>

definition onreadystatechange :: "scrapbook \<Rightarrow> capturer \<Rightarrow> nat \<Rightarrow> headerInfo \<Rightarrow> capturer" where
  "onreadystatechange sb s i h =
     (if i < length (accesses s) \<and> a_state (accesses s ! i) = Sent then
        (case redirectCheck sb s i h of
           Inl s' \<Rightarrow> s'
         | Inr s' \<Rightarrow> (case a_kind (accesses s ! i) of
                        ForFile \<Rightarrow> nameFile sb s' i h
                      | ForUrl \<Rightarrow> nameDocument sb s' i h))
      else s)"

text \<open>\<^verbatim>\<open>onload\<close>: the promise is resolved with the promise of the follow-up work.\<close>

definition onload :: "capturer \<Rightarrow> nat \<Rightarrow> capturer" where
  "onload s i =
     (if i < length (accesses s) \<and> a_state (accesses s ! i) \<in> {Sent, Received}
      then s\<lparr>accesses := setState (accesses s) i Chained\<rparr>
      else s)"

text \<open>\<^verbatim>\<open>onerror: reject\<close>\<close>

definition onerror :: "scrapbook \<Rightarrow> capturer \<Rightarrow> nat \<Rightarrow> error \<Rightarrow> capturer" where
  "onerror sb s i ex =
     (if i < length (accesses s) \<and> a_state (accesses s ! i) \<in> {Sent, Received}
      then s\<lparr>accesses := setState (rejectWith sb (accesses s) i ex) i Closed\<rparr>
      else s)"

text \<open>The promise the access was resolved with settles: fulfilled (\<open>Inr\<close>) or rejected.\<close>

definition onchain :: "scrapbook \<Rightarrow> capturer \<Rightarrow> nat \<Rightarrow> error + response \<Rightarrow> capturer" where
  "onchain sb s i out =
     (if i < length (accesses s) \<and> a_state (accesses s ! i) = Chained
      then s\<lparr>accesses :=
               setState (case out of Inl ex \<Rightarrow> rejectWith sb (accesses s) i ex
                                   | Inr r \<Rightarrow> resolveWith (accesses s) i r) i Closed\<rparr>
      else s)"

datatype event =
    DownloadFile params
  | CaptureUrl params
  | ReadyState2 nat headerInfo
  | Load nat
  | Fail nat error
  | ChainSettled nat "error + response"

text \<open>One event: the promise a request returns (if the event is a request) and the next state.\<close>

fun step :: "scrapbook \<Rightarrow> capturer \<Rightarrow> event \<Rightarrow> nat option \<times> capturer" where
  "step sb s (DownloadFile p) = (let (r, s') = downloadFile sb s p in (Some r, s'))"
| "step sb s (CaptureUrl p) = (let (r, s') = captureUrl sb s p in (Some r, s'))"
| "step sb s (ReadyState2 i h) = (None, onreadystatechange sb s i h)"
| "step sb s (Load i) = (None, onload s i)"
| "step sb s (Fail i ex) = (None, onerror sb s i ex)"
| "step sb s (ChainSettled i out) = (None, onchain sb s i out)"

fun run :: "scrapbook \<Rightarrow> capturer \<Rightarrow> event list \<Rightarrow> nat option list \<times> capturer" where
  "run sb s [] = ([], s)"
| "run sb s (ev # evs) =
     (let (r, s1) = step sb s ev; (rs, s2) = run sb s1 evs in (r # rs, s2))"

text \<open>The session and the token under which a request looks for a previous access.\<close>

fun requestKey :: "scrapbook \<Rightarrow> event \<Rightarrow> (timeId \<times> string) option" where
  "requestKey sb (DownloadFile p) =
     Some (timeId (p_settings p),
           getAccessToken sb (fst (splitUrlByAnchor sb (p_url p))) (p_rewriteMethod p))"
| "requestKey sb (CaptureUrl p) =
     Some (timeId (p_settings p),
           getAccessToken sb (fst (splitUrlByAnchor sb (p_url p))) (Some ''captureUrl''))"
| "requestKey sb _ = None"

definition accessKey :: "scrapbook \<Rightarrow> access \<Rightarrow> timeId \<times> string" where
  "accessKey sb a = (a_timeId a, getAccessToken sb (a_sourceUrlMain a) (a_rewriteMethod a))"

text \<open>The network requests made for a key.\<close>

definition requestsFor :: "scrapbook \<Rightarrow> capturer \<Rightarrow> timeId \<times> string \<Rightarrow> xhr list" where
  "requestsFor sb s k =
     concat (map (\<lambda>a. case a_xhr a of None \<Rightarrow> [] | Some x \<Rightarrow> if accessKey sb a = k then [x] else [])
               (accesses s))"

text \<open>What a promise is fulfilled with, through the promises it adopted.\<close>

inductive settlesTo :: "access list \<Rightarrow> nat \<Rightarrow> response \<Rightarrow> bool" for as :: "access list" where
  settled: "i < length as \<Longrightarrow> a_promise (as ! i) = Settled r \<Longrightarrow> settlesTo as i r"
| adopted: "i < length as \<Longrightarrow> a_promise (as ! i) = Adopted j \<Longrightarrow> settlesTo as j r \<Longrightarrow> settlesTo as i r"

code_pred settlesTo .

text \<open>
  The states the capturer reaches: from \<open>init\<close> by any events. In them every access
  that still waits has a pending promise, every access is the one the access map holds
  under its key, and the access map holds only promises that exist.
\<close>

definition reachable :: "scrapbook \<Rightarrow> capturer \<Rightarrow> bool" where
  "reachable sb s = (\<exists>evs. s = snd (run sb init evs))"

definition consistent :: "scrapbook \<Rightarrow> capturer \<Rightarrow> bool" where
  "consistent sb s =
     ((\<forall>i < length (accesses s). a_state (accesses s ! i) \<noteq> Closed \<longrightarrow> a_promise (accesses s ! i) = Pending)
      \<and> (\<forall>i < length (accesses s).
            getAccessMap (captureInfo s) (fst (accessKey sb (accesses s ! i)))
              (snd (accessKey sb (accesses s ! i))) = Some i)
      \<and> (\<forall>t k j. getAccessMap (captureInfo s) t k = Some j \<longrightarrow> j < length (accesses s)))"

subsection \<open>capturer.captureTab\<close>

datatype 'a settled = Fulfilled 'a | Rejected error

text \<open>\<^verbatim>\<open>settings: {timeId, frameIsMain: true, documentName: "index", recurseChain: []}\<close>\<close>

definition captureTabSettings :: "timeId \<Rightarrow> settings" where
  "captureTabSettings t = \<lparr>timeId = t, frameIsMain = True, documentName = ''index''\<rparr>"

text \<open>
  \<open>captureTab\<close> dispatches on the mode to \<open>captureBookmark\<close>, \<open>captureUrl\<close> or the
  content script (\<^verbatim>\<open>capturer.invoke\<close>) and continues when that promise settles:
  \<^verbatim>\<open>.then((response) => { capturer.captureInfo.delete(timeId); if (!response) { throw ... } else if (response.error) { throw ... } return response; })\<close>
  \<^verbatim>\<open>.catch((ex) => { ...; return new Error(err); })\<close>.
  How the dispatched promise settles is the argument: fulfilled with a response, fulfilled
  with nothing (\<^verbatim>\<open>undefined\<close>), or rejected. The result is the registry afterwards and
  the value the chain is fulfilled with: the response, or (\<open>Inl\<close>) the \<^verbatim>\<open>Error\<close> object
  that the handler returns.
\<close>

definition captureTabSettled ::
  "scrapbook \<Rightarrow> string \<Rightarrow> timeId \<Rightarrow> captureInfo \<Rightarrow> response option settled
     \<Rightarrow> captureInfo \<times> (error + response)" where
  "captureTabSettled sb source t ci out =
     (case out of
        Fulfilled response \<Rightarrow>
          (let ci' = ci(t := None)
           in case response of
                None \<Rightarrow>
                  (ci', Inl (Error (lang sb ''ErrorCapture''
                                      [source, lang sb ''ErrorContentScriptNotReady'' []])))
              | Some r \<Rightarrow>
                  if r_error r \<noteq> None
                  then (ci', Inl (Error (lang sb ''ErrorCapture''
                                           [source, lang sb ''ErrorCaptureGeneral'' []])))
                  else (ci', Inr r))
      | Rejected (Error message) \<Rightarrow>
          (ci, Inl (Error (lang sb ''ErrorCapture'' [source, message]))))"

subsection \<open>Data URIs\<close>

text \<open>
  Modelled from the spec: the reader \<^verbatim>\<open>scrapbook.readFileAsDataURL\<close> and the decoder of a
  data URI are not in the sources. The spec speaks of "decoding the produced reference";
  the decoder below reads a data URI as RFC 2397 writes it: the fragment (from the first
  \<^verbatim>\<open>#\<close>) is no part of it, the media type with its parameters runs to the first comma,
  and a last parameter \<^verbatim>\<open>;base64\<close> says that the payload is Base64. The decoding of the
  payload itself, \<open>dec\<close>, is a parameter.
\<close>

definition dataUriDecode :: "(string \<Rightarrow> string option) \<Rightarrow> string \<Rightarrow> string option" where
  "dataUriDecode dec u =
     (let noFragment = takeWhile (\<lambda>c. c \<noteq> CHR ''#'') u
      in if \<not> startsWith noFragment ''data:'' then None
         else (let rest = drop 5 noFragment;
                   header = takeWhile (\<lambda>c. c \<noteq> CHR '','') rest
               in if length header = length rest then None
                  else if endsWith header '';base64'' then dec (drop (Suc (length header)) rest)
                  else None))"

text \<open>
  Modelled from the spec: Base64 (RFC 4648) as \<^verbatim>\<open>FileReader.readAsDataURL\<close> writes it and
  as a decoder reads it, for the examples.
\<close>

definition base64Char :: "nat \<Rightarrow> char" where
  "base64Char n = ''ABCDEFGHIJKLMNOPQRSTUVWXYZabcdefghijklmnopqrstuvwxyz0123456789+/'' ! n"

fun base64 :: "string \<Rightarrow> string" where
  "base64 [] = []"
| "base64 [a] =
     (let x = (of_char a :: nat)
      in [base64Char (x div 4), base64Char (x mod 4 * 16), CHR ''='', CHR ''=''])"
| "base64 [a, b] =
     (let x = (of_char a :: nat); y = (of_char b :: nat)
      in [base64Char (x div 4), base64Char (x mod 4 * 16 + y div 16),
          base64Char (y mod 16 * 4), CHR ''=''])"
| "base64 (a # b # c # r) =
     (let x = (of_char a :: nat); y = (of_char b :: nat); z = (of_char c :: nat)
      in [base64Char (x div 4), base64Char (x mod 4 * 16 + y div 16),
          base64Char (y mod 16 * 4 + z div 64), base64Char (z mod 64)] @ base64 r)"

definition base64Value :: "char \<Rightarrow> nat option" where
  "base64Value c =
     (let n = (of_char c :: nat)
      in if 65 \<le> n \<and> n \<le> 90 then Some (n - 65)
         else if 97 \<le> n \<and> n \<le> 122 then Some (n - 71)
         else if 48 \<le> n \<and> n \<le> 57 then Some (n + 4)
         else if n = 43 then Some 62
         else if n = 47 then Some 63
         else None)"

fun unbase64 :: "string \<Rightarrow> string option" where
  "unbase64 [] = Some []"
| "unbase64 (p # q # r # s # rest) =
     (case (base64Value p, base64Value q) of
        (Some i, Some j) \<Rightarrow>
          if r = CHR ''='' \<and> s = CHR ''='' \<and> rest = [] then Some [char_of (i * 4 + j div 16)]
          else (case base64Value r of
                  None \<Rightarrow> None
                | Some k \<Rightarrow>
                    if s = CHR ''='' \<and> rest = []
                    then Some [char_of (i * 4 + j div 16), char_of (j mod 16 * 16 + k div 4)]
                    else (case (base64Value s, unbase64 rest) of
                            (Some l, Some bytes) \<Rightarrow>
                              Some ([char_of (i * 4 + j div 16), char_of (j mod 16 * 16 + k div 4),
                                     char_of (k mod 4 * 64 + l)] @ bytes)
                          | _ \<Rightarrow> None))
      | _ \<Rightarrow> None)"
| "unbase64 _ = None"

subsection \<open>An instance of the helpers\<close>

text \<open>
  Simple stand-ins for the helpers and the browser, to run the model on examples. No
  theorem about the code depends on them: they only show that the hypotheses of the
  theorems can be met.
\<close>

text \<open>
  A case folding for the examples, on texts in UTF-8 whose letters are those of Latin-1:
  the letters \<open>A\<close> to \<open>Z\<close> and the capital letters \<open>U+00C0\<close> to \<open>U+00DE\<close> (without the
  multiplication sign \<open>U+00D7\<close>; in UTF-8 the byte \<open>0xC3\<close> and a byte from \<open>0x80\<close> to
  \<open>0x9E\<close>) become the small ones. A byte from \<open>0xC0\<close> to \<open>0xDE\<close> that no continuation
  byte follows does not start a character of UTF-8; it is read as the capital letter of
  Latin-1 with that code and folded likewise. Every other byte is kept.
\<close>

definition lowerChar :: "char \<Rightarrow> char" where
  "lowerChar c =
     (let n = (of_char c :: nat) in if 65 \<le> n \<and> n \<le> 90 then char_of (n + 32) else c)"

definition lowerLatin1 :: "char \<Rightarrow> char" where
  "lowerLatin1 c =
     (let n = (of_char c :: nat)
      in if (65 \<le> n \<and> n \<le> 90) \<or> (192 \<le> n \<and> n \<le> 222 \<and> n \<noteq> 215) then char_of (n + 32) else c)"

definition continuation :: "char \<Rightarrow> bool" where
  "continuation d = (128 \<le> (of_char d :: nat) \<and> (of_char d :: nat) \<le> 191)"

definition latin1Capital :: "char \<Rightarrow> char \<Rightarrow> bool" where
  "latin1Capital c d =
     (c = CHR 0xC3 \<and> 128 \<le> (of_char d :: nat) \<and> (of_char d :: nat) \<le> 158 \<and> (of_char d :: nat) \<noteq> 151)"

fun lowerUtf8 :: "string \<Rightarrow> string" where
  "lowerUtf8 [] = []"
| "lowerUtf8 [c] = [lowerLatin1 c]"
| "lowerUtf8 (c # d # cs) =
     (if latin1Capital c d then c # char_of ((of_char d :: nat) + 32) # lowerUtf8 cs
      else (if continuation d then lowerChar c else lowerLatin1 c) # lowerUtf8 (d # cs))"

lemma lowerUtf8_ascii:
  "(of_char x :: nat) < 128 \<Longrightarrow> lowerUtf8 (b @ x # r) = lowerUtf8 b @ lowerUtf8 (x # r)"
proof (induction b rule: lowerUtf8.induct)
  case 1
  then show ?case by simp
next
  case (2 c)
  then show ?case by (simp add: latin1Capital_def continuation_def)
next
  case (3 c d cs)
  then show ?case by simp
qed

lemma lowerUtf8_digits:
  "\<forall>c \<in> set ds. 48 \<le> (of_char c :: nat) \<and> (of_char c :: nat) \<le> 57
     \<Longrightarrow> lowerUtf8 (ds @ e) = ds @ lowerUtf8 e"
proof (induction ds)
  case Nil
  then show ?case by simp
next
  case (Cons c ds)
  then have c: "lowerChar c = c" "lowerLatin1 c = c" "c \<noteq> CHR 0xC3"
    by (auto simp: lowerChar_def lowerLatin1_def)
  have "lowerUtf8 (c # r) = c # lowerUtf8 r" for r
    using c by (cases r) (simp_all add: latin1Capital_def)
  with Cons show ?case by simp
qed

lift_definition exLowerCase :: caseMapping is lowerUtf8
proof -
  fix b e :: string and m n :: nat
  assume a: "lowerUtf8 (b @ ''-'' @ numToString m @ e) = lowerUtf8 (b @ ''-'' @ numToString n @ e)"
  have h: "lowerUtf8 (CHR ''-'' # r) = CHR ''-'' # lowerUtf8 r" for r
    by (cases r) (simp_all add: latin1Capital_def lowerChar_def lowerLatin1_def)
  have "lowerUtf8 (b @ ''-'' @ numToString k @ e)
          = lowerUtf8 b @ ''-'' @ numToString k @ lowerUtf8 e" for k
    using lowerUtf8_ascii [of "CHR ''-''" b "numToString k @ e"]
      lowerUtf8_digits [of "numToString k" e] numToString_digits [of _ k]
    by (simp add: h)
  with a have "numToString m = numToString n" by simp
  then show "m = n" by (rule numToString_inj)
qed

definition basename :: "string \<Rightarrow> string" where
  "basename s = rev (takeWhile (\<lambda>c. c \<noteq> CHR ''/'') (rev s))"

definition exScrapbook :: scrapbook where
  "exScrapbook =
     \<lparr>splitUrlByAnchor = (\<lambda>u. (takeWhile (\<lambda>c. c \<noteq> CHR ''#'') u, dropWhile (\<lambda>c. c \<noteq> CHR ''#'') u)),
      sha1 = (\<lambda>s. s),
      filenameParts = (\<lambda>s. if CHR ''.'' \<in> set s
                           then (butlast (rev (dropWhile (\<lambda>c. c \<noteq> CHR ''.'') (rev s))),
                                 rev (takeWhile (\<lambda>c. c \<noteq> CHR ''.'') (rev s)))
                           else (s, [])),
      crop = (\<lambda>s n byUtf8. take n s),
      validateFilename = (\<lambda>s ascii. s),
      urlToFilename = (\<lambda>u. basename (takeWhile (\<lambda>c. c \<noteq> CHR ''#'') u)),
      escapeFilename = (\<lambda>s. s),
      escapeHtml = (\<lambda>s. s),
      stringToDataUri = (\<lambda>content mime charset. ''data:'' @ mime @ '';base64,'' @ base64 content),
      readFileAsDataURL = (\<lambda>b. Inr (''data:'' @ blob_type b @ '';base64,'' @ base64 (blob_data b))),
      dataUriToFile = (\<lambda>u. None),
      idToUTCString = (\<lambda>t. t),
      mimeExtension = (\<lambda>m. []),
      mimeLookup = (\<lambda>f. []),
      mimeAllExtensions = (\<lambda>m. []),
      getErrorUrl = (\<lambda>u opts. ''urn:scrapbook:download:error:'' @ u),
      lang = (\<lambda>key args. key),
      lowerCase = exLowerCase\<rparr>"

definition exBrowser :: browser where
  "exBrowser =
     \<lparr>downloadOutcome = (\<lambda>d. Complete (basename (dl_filename d))),
      generateAsync = (\<lambda>z. Inr (Blob ''PK'' ''application/zip''))\<rparr>"

definition exOptions :: "string \<Rightarrow> options" where
  "exOptions mode =
     \<lparr>saveAs = mode, saveInScrapbook = True, scrapbookFolder = ''ScrapBook'',
      saveAsciiFilename = False, saveDataUriAsFile = True, recordDocumentMeta = True\<rparr>"

definition exSettings :: "bool \<Rightarrow> settings" where
  "exSettings main = \<lparr>timeId = ''20230101000000000'', frameIsMain = main, documentName = ''index''\<rparr>"

text \<open>
  What a call returns for a desired name: the cropped base and the extension, or the
  same with \<open>-N\<close> before the extension, for some \<open>N \<ge> 1\<close>.
\<close>

definition suffixed :: "scrapbook \<Rightarrow> string option \<Rightarrow> string \<Rightarrow> bool" where
  "suffixed sb f n =
     (n = newFilenameBase sb f @ newFilenameExt sb f
      \<or> (\<exists>N\<ge>1. n = newFilenameBase sb f @ ''-'' @ numToString N @ newFilenameExt sb f))"


definition exDocx :: blobParams where
  "exDocx =
     \<lparr>bp_blob = Blob (replicate 128 CHR ''a'')
                  ''application/vnd.openxmlformats-officedocument.wordprocessingml.document'',
      bp_filename = Some ''a.docx'',
      bp_sourceUrl = ''http://example.com/a.docx'',
      bp_settings = exSettings False,
      bp_options = exOptions ''zip''\<rparr>"

definition exXhtml :: docParams where
  "exXhtml =
     \<lparr>dp_data = \<lparr>d_mime = ''application/xhtml+xml'', d_charset = Some ''UTF-8'',
                  d_content = ''<html/>'', d_title = ''T''\<rparr>,
      dp_documentName = ''index'',
      dp_sourceUrl = ''http://example.com/'',
      dp_settings = exSettings True,
      dp_options = exOptions ''folder''\<rparr>"



definition exInline :: blobParams where
  "exInline =
     \<lparr>bp_blob = Blob ''hi'' ''text/css'', bp_filename = Some ''a b.css'',
      bp_sourceUrl = ''http://e.com/a.css#x'', bp_settings = exSettings False,
      bp_options = exOptions ''singleHtml''\<rparr>"

text \<open>
  Requests of one session, and the state in which \<^verbatim>\<open>http://e/b\<close> was fetched and saved
  and a request for \<^verbatim>\<open>http://e/a\<close> waits for its headers.
\<close>

definition exRequest :: "string \<Rightarrow> options \<Rightarrow> params" where
  "exRequest u opts =
     \<lparr>p_url = u, p_refUrl = None, p_rewriteMethod = None,
      p_settings = \<lparr>timeId = ''t'', frameIsMain = False, documentName = ''index''\<rparr>,
      p_options = opts\<rparr>"

definition exHeaders :: "string \<Rightarrow> headerInfo" where
  "exHeaders u = \<lparr>h_responseURL = u, h_status = 200, h_contentDisposition = None, h_contentType = None\<rparr>"

definition exSaved :: response where
  "exSaved = \<lparr>r_timeId = Some ''t'', r_sourceUrl = Some ''http://e/b'', r_targetDir = None,
              r_filename = Some ''b'', r_url = ''b'', r_error = None\<rparr>"

definition exWaiting :: capturer where
  "exWaiting =
     snd (run exScrapbook init
            [DownloadFile (exRequest ''http://e/b'' (exOptions ''zip'')),
             ReadyState2 0 (exHeaders ''http://e/b''),
             Load 0,
             ChainSettled 0 (Inr exSaved),
             DownloadFile (exRequest ''http://e/a'' (exOptions ''zip''))])"

section \<open>Properties\<close>

subsection \<open>The filename allocator\<close>

lemma uniquify_result:
  "(uniquify sb fs b e nf c = nf \<and> toLowerCase sb nf \<notin> set fs)
   \<or> (toLowerCase sb nf \<in> set fs
      \<and> (\<exists>N>c. uniquify sb fs b e nf c = b @ ''-'' @ numToString N @ e
            \<and> toLowerCase sb (b @ ''-'' @ numToString N @ e) \<notin> set fs
            \<and> (\<forall>k. c < k \<and> k < N \<longrightarrow> toLowerCase sb (b @ ''-'' @ numToString k @ e) \<in> set fs)))"
proof (induction sb fs b e nf c rule: uniquify.induct)
  case (1 sb fs b e nf c)
  show ?case
  proof (cases "toLowerCase sb nf \<in> set fs")
    case False
    then show ?thesis by (simp add: uniquify.simps [of sb fs b e nf c])
  next
    case True
    let ?cand = "\<lambda>n. b @ ''-'' @ numToString n @ e"
    have eq: "uniquify sb fs b e nf c = uniquify sb fs b e (?cand (Suc c)) (Suc c)"
      using True by (simp add: uniquify.simps [of sb fs b e nf c])
    from "1.IH" [OF True] show ?thesis
    proof
      assume a: "uniquify sb fs b e (?cand (Suc c)) (Suc c) = ?cand (Suc c) \<and> toLowerCase sb (?cand (Suc c)) \<notin> set fs"
      have "\<forall>k. c < k \<and> k < Suc c \<longrightarrow> toLowerCase sb (?cand k) \<in> set fs" by auto
      with a eq True show ?thesis by (intro disjI2 conjI exI [of _ "Suc c"]) simp_all
    next
      assume "toLowerCase sb (?cand (Suc c)) \<in> set fs \<and>
        (\<exists>N>Suc c. uniquify sb fs b e (?cand (Suc c)) (Suc c) = ?cand N
            \<and> toLowerCase sb (?cand N) \<notin> set fs
            \<and> (\<forall>k. Suc c < k \<and> k < N \<longrightarrow> toLowerCase sb (?cand k) \<in> set fs))"
      then obtain N where N: "Suc c < N" "uniquify sb fs b e (?cand (Suc c)) (Suc c) = ?cand N"
        "toLowerCase sb (?cand N) \<notin> set fs"
        "\<forall>k. Suc c < k \<and> k < N \<longrightarrow> toLowerCase sb (?cand k) \<in> set fs"
        and s: "toLowerCase sb (?cand (Suc c)) \<in> set fs" by blast
      have "\<forall>k. c < k \<and> k < N \<longrightarrow> toLowerCase sb (?cand k) \<in> set fs"
        using N(4) s by (metis Suc_lessI)
      with N eq True show ?thesis by (intro disjI2 conjI exI [of _ N]) simp_all
    qed
  qed
qed

lemma uniquify_fresh: "toLowerCase sb (uniquify sb fs b e nf c) \<notin> set fs"
  using uniquify_result [of sb fs b e nf c] by auto

lemma getInfo_ensureInfo [simp]: "getInfo (ensureInfo ci t) t' = getInfo ci t'"
  by (simp add: getInfo_def ensureInfo_def split: option.splits)

lemma getFiles_ensureInfo [simp]: "getFiles (ensureInfo ci t) t' = getFiles ci t'"
  by (simp add: getFiles_def)

lemma getFiles_setFiles [simp]: "getFiles (setFiles ci t fs) t' = (if t' = t then fs else getFiles ci t')"
  by (simp add: getFiles_def setFiles_def getInfo_def)

lemma getUniqueFilename_files:
  "getFiles (snd (getUniqueFilename sb ci t f)) t' =
     (if t' = t then getFiles ci t @ [toLowerCase sb (fst (getUniqueFilename sb ci t f))] else getFiles ci t')"
  by (simp add: getUniqueFilename_def Let_def setAdd_def uniquify_fresh)

lemma getUniqueFilename_fresh:
  "toLowerCase sb (fst (getUniqueFilename sb ci t f)) \<notin> set (getFiles ci t)"
  by (simp add: getUniqueFilename_def Let_def uniquify_fresh)

lemma getUniqueFilename_suffixed: "suffixed sb f (fst (getUniqueFilename sb ci t f))"
  using uniquify_result [of sb "getFiles ci t" "newFilenameBase sb f" "newFilenameExt sb f"
      "newFilenameBase sb f @ newFilenameExt sb f" 0]
  by (auto simp: getUniqueFilename_def Let_def Suc_le_eq suffixed_def)

lemma allocate_props:
  "allocate sb ci t reqs = (names, ci') \<Longrightarrow>
     length names = length reqs
     \<and> distinct (map (toLowerCase sb) names)
     \<and> set (map (toLowerCase sb) names) \<inter> set (getFiles ci t) = {}
     \<and> set (getFiles ci' t) = set (getFiles ci t) \<union> set (map (toLowerCase sb) names)
     \<and> list_all2 (suffixed sb) reqs names"
proof (induction reqs arbitrary: ci names ci')
  case Nil
  then show ?case by simp
next
  case (Cons f reqs)
  obtain n ci1 where g: "getUniqueFilename sb ci t f = (n, ci1)" by (cases "getUniqueFilename sb ci t f")
  obtain ns ci2 where a: "allocate sb ci1 t reqs = (ns, ci2)" by (cases "allocate sb ci1 t reqs")
  from Cons.prems g a have names: "names = n # ns" and ci': "ci' = ci2" by simp_all
  have fresh: "toLowerCase sb n \<notin> set (getFiles ci t)"
    using getUniqueFilename_fresh [of sb ci t f] g by simp
  have fs1: "getFiles ci1 t = getFiles ci t @ [toLowerCase sb n]"
    using getUniqueFilename_files [of sb ci t f t] g by simp
  have form: "suffixed sb f n"
    using getUniqueFilename_suffixed [of sb f ci t] g by simp
  from Cons.IH [OF a] fs1 fresh form show ?case
    unfolding names ci' by auto
qed

text \<open>
  Claim C4. In every sequence of \<open>getUniqueFilename\<close> calls of one session (on a
  registry whose name set, if it exists, holds the reserved names, as every name set
  the script creates does) each call returns: the names returned are pairwise
  different after \<^verbatim>\<open>toLowerCase\<close> (whatever letters the case folding of the engine
  folds), none has the lowercase form of a name the session held before, none has the
  lowercase form \<^verbatim>\<open>index.rdf\<close> or \<^verbatim>\<open>index.dat\<close>, each is the desired name or that name
  with \<open>-N\<close> (\<open>N \<ge> 1\<close>) before its extension, and the lowercase forms are exactly what
  the sequence added to the session's name set. That the loop ends for every input is
  the termination proof of \<open>uniquify\<close>.
\<close>

theorem allocation_unique:
  assumes "reservedKept ci t"
  shows "case allocate sb ci t reqs of (names, ci') \<Rightarrow>
           length names = length reqs
         \<and> distinct (map (toLowerCase sb) names)
         \<and> set (map (toLowerCase sb) names) \<inter> set (getFiles ci t) = {}
         \<and> set (map (toLowerCase sb) names) \<inter> {''index.rdf'', ''index.dat''} = {}
         \<and> set (getFiles ci' t) = set (getFiles ci t) \<union> set (map (toLowerCase sb) names)
         \<and> reservedKept ci' t
         \<and> list_all2 (suffixed sb) reqs names"
proof -
  obtain names ci' where a: "allocate sb ci t reqs = (names, ci')" by (cases "allocate sb ci t reqs")
  have r: "{''index.rdf'', ''index.dat''} \<subseteq> set (getFiles ci t)"
    using assms by (simp add: reservedKept_def defaultFilesSet_def)
  from allocate_props [OF a] r show ?thesis
    unfolding a reservedKept_def defaultFilesSet_def by (simp; blast)
qed

theorem allocation_unique_witness:
  "reservedKept Map.empty ''t''
   \<and> fst (allocate exScrapbook Map.empty ''t'' [Some (CHR 0xC3 # CHR 0xA9 # ''.c''), Some (CHR 0xC3 # CHR 0x89 # ''.c''), None])
       = [CHR 0xC3 # CHR 0xA9 # ''.c'', CHR 0xC3 # CHR 0x89 # ''-1.c'', ''untitled'']
   \<and> map (toLowerCase exScrapbook) [CHR 0xC3 # CHR 0xA9 # ''.c'', CHR 0xC3 # CHR 0x89 # ''-1.c'', ''untitled'']
       = [CHR 0xC3 # CHR 0xA9 # ''.c'', CHR 0xC3 # CHR 0xA9 # ''-1.c'', ''untitled'']
   \<and> distinct (map (toLowerCase exScrapbook)
                 (fst (allocate exScrapbook Map.empty ''t'' [Some (CHR 0xC3 # CHR 0xA9 # ''.c''), Some (CHR 0xC3 # CHR 0x89 # ''.c''), None])))"
proof -
  have h: "reservedKept Map.empty ''t''"
    by (simp add: reservedKept_def getFiles_def getInfo_def emptyInfo_def)
  have e: "fst (allocate exScrapbook Map.empty ''t'' [Some (CHR 0xC3 # CHR 0xA9 # ''.c''), Some (CHR 0xC3 # CHR 0x89 # ''.c''), None])
       = [CHR 0xC3 # CHR 0xA9 # ''.c'', CHR 0xC3 # CHR 0x89 # ''-1.c'', ''untitled'']"
    by code_simp
  have l: "map (toLowerCase exScrapbook) [CHR 0xC3 # CHR 0xA9 # ''.c'', CHR 0xC3 # CHR 0x89 # ''-1.c'', ''untitled'']
       = [CHR 0xC3 # CHR 0xA9 # ''.c'', CHR 0xC3 # CHR 0xA9 # ''-1.c'', ''untitled'']"
    by code_simp
  from allocation_unique [OF h, where sb = exScrapbook
      and reqs = "[Some (CHR 0xC3 # CHR 0xA9 # ''.c''), Some (CHR 0xC3 # CHR 0x89 # ''.c''), None]"]
  have d: "distinct (map (toLowerCase exScrapbook)
                      (fst (allocate exScrapbook Map.empty ''t'' [Some (CHR 0xC3 # CHR 0xA9 # ''.c''), Some (CHR 0xC3 # CHR 0x89 # ''.c''), None])))"
    by (simp add: case_prod_unfold)
  from h e l d show ?thesis by blast
qed

text \<open>
  Claim C10. A call with a missing (\<^verbatim>\<open>null\<close>, \<^verbatim>\<open>undefined\<close>) or empty desired name
  returns \<^verbatim>\<open>untitled\<close> or \<^verbatim>\<open>untitled-N\<close> with \<open>N \<ge> 1\<close>, a name the session did not
  hold (after lowercasing), and adds its lowercase form to the name set. The two
  hypotheses say what the absent helpers do on the word "untitled": it has no
  extension, and it is shorter than the bounds \<^verbatim>\<open>scrapbook.crop\<close> enforces.
\<close>

theorem untitled_substituted:
  assumes "filename = None \<or> filename = Some []"
    and "filenameParts sb ''untitled'' = (''untitled'', [])"
    and "crop sb (crop sb ''untitled'' 240 True) 128 False = ''untitled''"
  shows "(fst (getUniqueFilename sb ci t filename) = ''untitled''
          \<or> (\<exists>N\<ge>1. fst (getUniqueFilename sb ci t filename) = ''untitled-'' @ numToString N))
       \<and> toLowerCase sb (fst (getUniqueFilename sb ci t filename)) \<notin> set (getFiles ci t)
       \<and> getFiles (snd (getUniqueFilename sb ci t filename)) t
           = getFiles ci t @ [toLowerCase sb (fst (getUniqueFilename sb ci t filename))]"
proof -
  have u: "orUntitled filename = ''untitled''" using assms(1) by (auto simp: orUntitled_def)
  have b: "newFilenameBase sb filename = ''untitled''" and e: "newFilenameExt sb filename = []"
    using assms(2,3) by (simp_all add: newFilenameBase_def newFilenameExt_def u)
  from getUniqueFilename_suffixed [of sb filename ci t]
  have "fst (getUniqueFilename sb ci t filename) = ''untitled''
          \<or> (\<exists>N\<ge>1. fst (getUniqueFilename sb ci t filename) = ''untitled-'' @ numToString N)"
    by (simp add: suffixed_def b e)
  then show ?thesis
    using getUniqueFilename_fresh [of sb ci t filename] getUniqueFilename_files [of sb ci t filename t]
    by simp
qed

theorem untitled_substituted_witness:
  "(Some [] = None \<or> Some [] = Some ([] :: string))
   \<and> filenameParts exScrapbook ''untitled'' = (''untitled'', [])
   \<and> crop exScrapbook (crop exScrapbook ''untitled'' 240 True) 128 False = ''untitled''
   \<and> fst (getUniqueFilename exScrapbook [''t'' \<mapsto> emptyInfo\<lparr>files := Some [''untitled'']\<rparr>] ''t'' (Some []))
       = ''untitled-1''
   \<and> getFiles (snd (getUniqueFilename exScrapbook
                      [''t'' \<mapsto> emptyInfo\<lparr>files := Some [''untitled'']\<rparr>] ''t'' (Some []))) ''t''
       = [''untitled'', ''untitled-1'']"
proof -
  let ?ci = "[''t'' \<mapsto> emptyInfo\<lparr>files := Some [''untitled'']\<rparr>]"
  have h1: "Some [] = None \<or> Some [] = Some ([] :: string)" by simp
  have h2: "filenameParts exScrapbook ''untitled'' = (''untitled'', [])" by (simp add: exScrapbook_def)
  have h3: "crop exScrapbook (crop exScrapbook ''untitled'' 240 True) 128 False = ''untitled''"
    by (simp add: exScrapbook_def)
  have v: "fst (getUniqueFilename exScrapbook ?ci ''t'' (Some [])) = ''untitled-1''"
    by code_simp
  have g: "getFiles ?ci ''t'' = [''untitled'']"
    by (simp add: getFiles_def getInfo_def emptyInfo_def)
  have l: "toLowerCase exScrapbook ''untitled-1'' = ''untitled-1''" by code_simp
  from untitled_substituted [OF h1 h2 h3, of ?ci "''t''"]
  show ?thesis using h2 h3 v g l by simp
qed


subsection \<open>The packager\<close>

lemma wordBoundary_append:
  "wordBoundary (xs @ ys) (length xs)
     = ((xs \<noteq> [] \<and> isWordChar (last xs)) \<noteq> (ys \<noteq> [] \<and> isWordChar (hd ys)))"
  by (cases xs rule: rev_cases; cases ys) (auto simp: wordBoundary_def nth_append)

lemma literalAt_iff: "literalAt w s i \<longleftrightarrow> (\<exists>suf. drop i s = w @ suf)"
proof
  assume "literalAt w s i"
  then have "drop i s = w @ drop (length w) (drop i s)"
    unfolding literalAt_def by (metis append_take_drop_id)
  then show "\<exists>suf. drop i s = w @ suf" ..
next
  assume "\<exists>suf. drop i s = w @ suf"
  then show "literalAt w s i" unfolding literalAt_def by auto
qed

lemma wordAt_iff:
  assumes w: "w \<noteq> []" "isWordChar (hd w)" "isWordChar (last w)"
  shows "(\<exists>i \<le> length s. wordBoundary s i \<and> literalAt w s i \<and> wordBoundary s (i + length w))
           \<longleftrightarrow> wholeWordIn w s"
proof
  assume "\<exists>i \<le> length s. wordBoundary s i \<and> literalAt w s i \<and> wordBoundary s (i + length w)"
  then obtain i suf where i: "i \<le> length s" and b1: "wordBoundary s i"
    and d: "drop i s = w @ suf" and b2: "wordBoundary s (i + length w)"
    by (auto simp: literalAt_iff)
  define pre where "pre = take i s"
  have s: "s = pre @ w @ suf" and len: "length pre = i"
    using d i by (auto simp: pre_def) (metis append_take_drop_id)
  from b1 have "wordBoundary (pre @ (w @ suf)) (length pre)" by (simp add: s len)
  then have p: "pre = [] \<or> \<not> isWordChar (last pre)"
    using w by (auto simp: wordBoundary_append hd_append)
  from b2 have "wordBoundary ((pre @ w) @ suf) (length (pre @ w))" by (simp add: s len)
  then have q: "suf = [] \<or> \<not> isWordChar (hd suf)"
    using w unfolding wordBoundary_append by auto
  show "wholeWordIn w s" unfolding wholeWordIn_def using s p q by blast
next
  assume "wholeWordIn w s"
  then obtain pre suf where s: "s = pre @ w @ suf"
    and p: "pre = [] \<or> \<not> isWordChar (last pre)" and q: "suf = [] \<or> \<not> isWordChar (hd suf)"
    unfolding wholeWordIn_def by blast
  have "wordBoundary (pre @ (w @ suf)) (length pre)"
    using w p by (auto simp: wordBoundary_append hd_append)
  moreover have "wordBoundary ((pre @ w) @ suf) (length (pre @ w))"
    using w q unfolding wordBoundary_append by auto
  moreover have "literalAt w s (length pre)" by (simp add: s literalAt_def)
  ultimately show "\<exists>i \<le> length s. wordBoundary s i \<and> literalAt w s i \<and> wordBoundary s (i + length w)"
    by (intro exI[of _ "length pre"]) (simp add: s)
qed

lemma compressibleType_iff:
  "compressibleType s \<longleftrightarrow> startsWith s ''text/'' \<or> (\<exists>w \<in> set compressibleWords. wholeWordIn w s)"
proof -
  have words: "\<And>w. w \<in> set compressibleWords \<Longrightarrow> w \<noteq> [] \<and> isWordChar (hd w) \<and> isWordChar (last w)"
    by (auto simp: compressibleWords_def isWordChar_def)
  have lit0: "literalAt ''text/'' s 0 \<longleftrightarrow> startsWith s ''text/''"
    by (simp add: literalAt_def startsWith_def)
  have ex: "\<And>P n. list_ex P [0..<Suc n] \<longleftrightarrow> (\<exists>i\<le>n. P i)"
    unfolding list_ex_iff set_upt atLeast0LessThan lessThan_Suc_atMost by blast
  have "compressibleType s \<longleftrightarrow>
          literalAt ''text/'' s 0
          \<or> (\<exists>w \<in> set compressibleWords. \<exists>i \<le> length s.
                wordBoundary s i \<and> literalAt w s i \<and> wordBoundary s (i + length w))"
    unfolding compressibleType_def ex unfolding list_ex_iff by blast
  also have "\<dots> \<longleftrightarrow> startsWith s ''text/'' \<or> (\<exists>w \<in> set compressibleWords. wholeWordIn w s)"
    using words by (simp add: wordAt_iff lit0 cong: bex_cong)
  finally show ?thesis .
qed

lemma getZip_setZip [simp]: "getZip (setZip ci t z) t' = (if t' = t then z else getZip ci t')"
  by (simp add: getZip_def setZip_def getInfo_def)

lemma getZip_ensureInfo [simp]: "getZip (ensureInfo ci t) t' = getZip ci t'"
  by (simp add: getZip_def getInfo_def ensureInfo_def emptyInfo_def split: option.splits)

text \<open>
  Claim C6, as amended. A blob that \<open>downloadBlob\<close> writes into an archive (\<^verbatim>\<open>zip\<close>, and
  \<^verbatim>\<open>maff\<close> under the session's folder) is compressed with DEFLATE at level 9 exactly when
  its size is at least 128 bytes and its MIME type starts with \<^verbatim>\<open>text/\<close> or holds
  \<^verbatim>\<open>xml\<close>, \<^verbatim>\<open>json\<close> or \<^verbatim>\<open>javascript\<close> as a whole word; every other blob is stored.
  No download is started.
\<close>

theorem archive_compression:
  assumes "saveAs (bp_options p) = ''zip'' \<or> saveAs (bp_options p) = ''maff''"
  shows "case downloadBlob sb br ci p of
           (ci', dls, res) \<Rightarrow>
             getZip ci' (timeId (bp_settings p))
               ((if saveAs (bp_options p) = ''maff'' then timeId (bp_settings p) @ ''/'' else [])
                  @ str (bp_filename p))
               = Some \<lparr>ze_data = bp_blob p,
                       ze_compression =
                         (if (startsWith (blob_type (bp_blob p)) ''text/''
                              \<or> wholeWordIn ''xml'' (blob_type (bp_blob p))
                              \<or> wholeWordIn ''json'' (blob_type (bp_blob p))
                              \<or> wholeWordIn ''javascript'' (blob_type (bp_blob p)))
                             \<and> 128 \<le> blob_size (bp_blob p)
                          then DEFLATE 9 else STORE)\<rparr>
             \<and> dls = []"
  using assms
  by (auto simp: downloadBlob_def Let_def zipFile_def zipCompression_def compressibleType_iff
      compressibleWords_def)

lemma docx_not_compressible:
  "\<not> compressibleType ''application/vnd.openxmlformats-officedocument.wordprocessingml.document''"
  by (simp add: compressibleType_def compressibleWords_def literalAt_def wordBoundary_def
      isWordChar_def upt_rec)

text \<open>
  The claim as stated ("contains xml") fails: the MIME type of a Word document contains
  \<^verbatim>\<open>xml\<close> inside the word \<^verbatim>\<open>openxmlformats\<close>, and a blob of 128 bytes of that type is
  stored, not compressed.
\<close>

theorem archive_compression_counterexample:
  "contains (blob_type (bp_blob exDocx)) ''xml''
   \<and> 128 \<le> blob_size (bp_blob exDocx)
   \<and> saveAs (bp_options exDocx) = ''zip''
   \<and> getZip (fst (downloadBlob exScrapbook exBrowser Map.empty exDocx)) (timeId (bp_settings exDocx)) ''a.docx''
       = Some \<lparr>ze_data = bp_blob exDocx, ze_compression = STORE\<rparr>"
proof -
  have "blob_type (bp_blob exDocx)
          = ''application/vnd.open'' @ ''xml'' @ ''formats-officedocument.wordprocessingml.document''"
    by (simp add: exDocx_def Blob_def)
  then have c: "contains (blob_type (bp_blob exDocx)) ''xml''"
    unfolding contains_def by blast
  have z: "zipCompression (bp_blob exDocx) = STORE"
    by (simp add: zipCompression_def exDocx_def Blob_def docx_not_compressible)
  show ?thesis
    using c z
    by (simp add: downloadBlob_def Let_def zipFile_def exDocx_def exOptions_def exSettings_def
        Blob_def blob_size_def str_def)
qed

theorem archive_compression_witness:
  "(saveAs (exOptions ''zip'') = ''zip'' \<or> saveAs (exOptions ''zip'') = ''maff'')
   \<and> getZip (fst (downloadBlob exScrapbook exBrowser Map.empty
        \<lparr>bp_blob = Blob (replicate 128 CHR ''a'') ''text/css'', bp_filename = Some ''a.css'',
         bp_sourceUrl = ''http://example.com/a.css'', bp_settings = exSettings False,
         bp_options = exOptions ''zip''\<rparr>)) ''20230101000000000'' ''a.css''
       = Some \<lparr>ze_data = Blob (replicate 128 CHR ''a'') ''text/css'', ze_compression = DEFLATE 9\<rparr>"
proof -
  let ?p = "\<lparr>bp_blob = Blob (replicate 128 CHR ''a'') ''text/css'', bp_filename = Some ''a.css'',
         bp_sourceUrl = ''http://example.com/a.css'', bp_settings = exSettings False,
         bp_options = exOptions ''zip''\<rparr>"
  have h: "saveAs (bp_options ?p) = ''zip'' \<or> saveAs (bp_options ?p) = ''maff''"
    by (simp add: exOptions_def)
  from archive_compression [OF h, of exScrapbook exBrowser Map.empty]
  show ?thesis
    by (simp add: case_prod_unfold exOptions_def exSettings_def str_def Blob_def blob_size_def
        startsWith_def)
qed


lemma docExt_xhtml: "docExt d = ''.xhtml'' \<longleftrightarrow> d_mime d = ''application/xhtml+xml''"
  by (simp add: docExt_def)

text \<open>
  Claim C5, as amended. In folder mode (the default of the switch) \<open>saveDocument\<close> first
  downloads the document under its validated name, marked auto-erase unless it is the
  main frame's document and not XHTML. When the main frame's document is XHTML, that
  first download (\<^verbatim>\<open>index.xhtml\<close>, the real content) is marked auto-erase, and once it
  has completed a second download \<^verbatim>\<open>index.html\<close>, the redirect stub, is started with
  auto-erase not set. Every blob \<open>downloadBlob\<close> persists in folder mode is one download
  marked auto-erase. Neither touches the registry.
\<close>

theorem folder_downloads:
  assumes "saveAs (dp_options p) \<notin> {''singleHtml'', ''zip'', ''maff''}"
    and "saveAs (bp_options q) \<notin> {''singleHtml'', ''zip'', ''maff''}"
  shows "(case saveDocument sb br ci p of
            (ci', dls, res) \<Rightarrow>
              ci' = ci
            \<and> dls \<noteq> []
            \<and> hd dls =
                \<lparr>dl_blob = Blob (d_content (dp_data p)) (d_mime (dp_data p)),
                 dl_filename = scrapbookFolder (dp_options p) @ ''/data/'' @ timeId (dp_settings p) @ ''/''
                    @ validateFilename sb (dp_documentName p @ docExt (dp_data p))
                        (saveAsciiFilename (dp_options p)),
                 dl_conflictAction = ''uniquify'', dl_saveAs = False, dl_src = dp_sourceUrl p,
                 dl_autoErase = (\<not> frameIsMain (dp_settings p)
                                 \<or> d_mime (dp_data p) = ''application/xhtml+xml'')\<rparr>
            \<and> tl dls =
                (if frameIsMain (dp_settings p) \<and> d_mime (dp_data p) = ''application/xhtml+xml''
                    \<and> (\<exists>fn. downloadOutcome br (hd dls) = Complete fn)
                 then [\<lparr>dl_blob = Blob redirectStub ''text/html'',
                        dl_filename = scrapbookFolder (dp_options p) @ ''/data/''
                           @ timeId (dp_settings p) @ ''/index.html'',
                        dl_conflictAction = ''uniquify'', dl_saveAs = False, dl_src = dp_sourceUrl p,
                        dl_autoErase = False\<rparr>]
                 else []))
       \<and> (case downloadBlob sb br ci q of
            (ci', dls, res) \<Rightarrow>
              ci' = ci
            \<and> dls =
                [\<lparr>dl_blob = bp_blob q,
                  dl_filename = scrapbookFolder (bp_options q) @ ''/data/'' @ timeId (bp_settings q) @ ''/''
                     @ str (bp_filename q),
                  dl_conflictAction = ''uniquify'', dl_saveAs = False, dl_src = bp_sourceUrl q,
                  dl_autoErase = True\<rparr>])"
proof -
  have a: "case downloadBlob sb br ci q of
            (ci', dls, res) \<Rightarrow>
              ci' = ci
            \<and> dls =
                [\<lparr>dl_blob = bp_blob q,
                  dl_filename = scrapbookFolder (bp_options q) @ ''/data/'' @ timeId (bp_settings q) @ ''/''
                     @ str (bp_filename q),
                  dl_conflictAction = ''uniquify'', dl_saveAs = False, dl_src = bp_sourceUrl q,
                  dl_autoErase = True\<rparr>]"
    using assms(2) by (simp add: downloadBlob_def Let_def saveBlob_def saveUrl_def)
  have b: "case saveDocument sb br ci p of
            (ci', dls, res) \<Rightarrow>
              ci' = ci
            \<and> dls \<noteq> []
            \<and> hd dls =
                \<lparr>dl_blob = Blob (d_content (dp_data p)) (d_mime (dp_data p)),
                 dl_filename = scrapbookFolder (dp_options p) @ ''/data/'' @ timeId (dp_settings p) @ ''/''
                    @ validateFilename sb (dp_documentName p @ docExt (dp_data p))
                        (saveAsciiFilename (dp_options p)),
                 dl_conflictAction = ''uniquify'', dl_saveAs = False, dl_src = dp_sourceUrl p,
                 dl_autoErase = (\<not> frameIsMain (dp_settings p)
                                 \<or> d_mime (dp_data p) = ''application/xhtml+xml'')\<rparr>
            \<and> tl dls =
                (if frameIsMain (dp_settings p) \<and> d_mime (dp_data p) = ''application/xhtml+xml''
                    \<and> (\<exists>fn. downloadOutcome br (hd dls) = Complete fn)
                 then [\<lparr>dl_blob = Blob redirectStub ''text/html'',
                        dl_filename = scrapbookFolder (dp_options p) @ ''/data/''
                           @ timeId (dp_settings p) @ ''/index.html'',
                        dl_conflictAction = ''uniquify'', dl_saveAs = False, dl_src = dp_sourceUrl p,
                        dl_autoErase = False\<rparr>]
                 else [])"
    using assms(1)
    by (simp add: saveDocument_def Let_def saveBlob_def saveUrl_def docExt_xhtml
        split: outcome.splits)
  from a b show ?thesis by simp
qed

text \<open>
  The claim as stated has the two flags the other way round: for an XHTML main document
  the code marks \<^verbatim>\<open>index.xhtml\<close> auto-erase and keeps the stub \<^verbatim>\<open>index.html\<close>.
\<close>

theorem folder_downloads_counterexample:
  "d_mime (dp_data exXhtml) = ''application/xhtml+xml''
   \<and> frameIsMain (dp_settings exXhtml)
   \<and> saveAs (dp_options exXhtml) = ''folder''
   \<and> map (\<lambda>d. (dl_filename d, blob_data (dl_blob d), dl_autoErase d))
          (fst (snd (saveDocument exScrapbook exBrowser Map.empty exXhtml)))
       = [(''ScrapBook/data/20230101000000000/index.xhtml'', ''<html/>'', True),
          (''ScrapBook/data/20230101000000000/index.html'', redirectStub, False)]"
  by (simp add: saveDocument_def Let_def saveBlob_def saveUrl_def docExt_def exXhtml_def
      exOptions_def exSettings_def exBrowser_def exScrapbook_def Blob_def basename_def)

theorem folder_downloads_witness:
  "saveAs (dp_options exXhtml) \<notin> {''singleHtml'', ''zip'', ''maff''}
   \<and> saveAs (exOptions ''folder'') \<notin> {''singleHtml'', ''zip'', ''maff''}
   \<and> map dl_autoErase (fst (snd (saveDocument exScrapbook exBrowser Map.empty exXhtml))) = [True, False]
   \<and> map dl_autoErase (fst (snd (downloadBlob exScrapbook exBrowser Map.empty
        \<lparr>bp_blob = Blob ''body{}'' ''text/css'', bp_filename = Some ''a.css'',
         bp_sourceUrl = ''http://example.com/a.css'', bp_settings = exSettings False,
         bp_options = exOptions ''folder''\<rparr>))) = [True]"
proof -
  let ?q = "\<lparr>bp_blob = Blob ''body{}'' ''text/css'', bp_filename = Some ''a.css'',
         bp_sourceUrl = ''http://example.com/a.css'', bp_settings = exSettings False,
         bp_options = exOptions ''folder''\<rparr>"
  have h1: "saveAs (dp_options exXhtml) \<notin> {''singleHtml'', ''zip'', ''maff''}"
    by (simp add: exXhtml_def exOptions_def)
  have h2: "saveAs (bp_options ?q) \<notin> {''singleHtml'', ''zip'', ''maff''}"
    by (simp add: exOptions_def)
  have c: "\<exists>fn. downloadOutcome exBrowser d = Complete fn" for d
    by (simp add: exBrowser_def)
  obtain ci' dls res where s: "saveDocument exScrapbook exBrowser Map.empty exXhtml = (ci', dls, res)"
    by (cases "saveDocument exScrapbook exBrowser Map.empty exXhtml")
  obtain ci2 dls2 res2 where b: "downloadBlob exScrapbook exBrowser Map.empty ?q = (ci2, dls2, res2)"
    by (cases "downloadBlob exScrapbook exBrowser Map.empty ?q")
  from folder_downloads [OF h1 h2, where sb = exScrapbook and br = exBrowser and ci = Map.empty]
  have "dls \<noteq> [] \<and> dl_autoErase (hd dls) \<and> map dl_autoErase (tl dls) = [False]
        \<and> map dl_autoErase dls2 = [True]"
    unfolding s b using c by (simp add: exXhtml_def exSettings_def)
  then have "map dl_autoErase dls = [True, False] \<and> map dl_autoErase dls2 = [True]"
    by (cases dls) auto
  with h1 h2 show ?thesis unfolding s b by (simp add: exOptions_def)
qed


lemma startsWith_append [simp]: "startsWith (a @ b) a"
  by (simp add: startsWith_def)

lemma startsWith_folder [simp]: "startsWith (t @ CHR ''/'' # x) (t @ ''/'')"
  by (simp add: startsWith_def)





lemma saveArchive_fst [simp]: "fst (saveArchive sb br ci p z ext) = ci"
  by (simp add: saveArchive_def Let_def case_prod_unfold split: sum.splits)
















subsection \<open>The inline strategy\<close>

lemma hexDigit_plain: "n < 16 \<Longrightarrow> hexDigit n \<noteq> CHR '','' \<and> hexDigit n \<noteq> CHR ''#''"
proof -
  assume "n < 16"
  then have "hexDigit n \<in> set ''0123456789ABCDEF''"
    unfolding hexDigit_def by (intro nth_mem) simp
  then show ?thesis by auto
qed

lemma encodeURIComponent_plain:
  "CHR '','' \<notin> set (encodeURIComponent f) \<and> CHR ''#'' \<notin> set (encodeURIComponent f)"
proof -
  have "c \<noteq> CHR '','' \<and> c \<noteq> CHR ''#''" if "c \<in> set (encodeURIComponent f)" for c
  proof -
    from that obtain x where
      c: "c \<in> set (if uriUnreserved x then [x]
                    else [CHR ''%'', hexDigit (of_char x div 16), hexDigit (of_char x mod 16)])"
      unfolding encodeURIComponent_def by (simp only: set_concat set_map) blast
    have d: "(of_char x :: nat) div 16 < 16"
      using nat_of_char_less_256 [of x] by (simp add: div_less_iff_less_mult)
    have m: "(of_char x :: nat) mod 16 < 16" by simp
    show ?thesis
    proof (cases "uriUnreserved x")
      case True
      with c have "uriUnreserved c" by simp
      then show ?thesis by (auto simp: uriUnreserved_def)
    next
      case False
      with c have "c = CHR ''%'' \<or> c = hexDigit (of_char x div 16) \<or> c = hexDigit (of_char x mod 16)"
        by simp
      then show ?thesis using hexDigit_plain [OF d] hexDigit_plain [OF m] by auto
    qed
  qed
  then show ?thesis by blast
qed

lemma replaceFirst_append:
  "replaceFirst c r (xs @ ys)
     = (if c \<in> set xs then replaceFirst c r xs @ ys else xs @ replaceFirst c r ys)"
  by (induction xs) auto

lemma set_replaceFirst: "set (replaceFirst c r xs) \<subseteq> set xs \<union> set r"
  by (induction xs) auto

lemma dataUriDecode_base64:
  assumes "CHR '','' \<notin> set h" "CHR ''#'' \<notin> set h" "CHR ''#'' \<notin> set e"
    and "hash = [] \<or> hd hash = CHR ''#''"
  shows "dataUriDecode dec (''data:'' @ h @ '';base64,'' @ e @ hash) = dec e"
proof -
  let ?P = "\<lambda>c. c \<noteq> CHR ''#''" and ?Q = "\<lambda>c. c \<noteq> CHR '',''"
  have th: "takeWhile ?P hash = []" using assms(4) by (cases hash) auto
  have "\<forall>c \<in> set (''data:'' @ h @ '';base64,'' @ e). ?P c" using assms(2,3) by auto
  then have "takeWhile ?P ((''data:'' @ h @ '';base64,'' @ e) @ hash)
               = (''data:'' @ h @ '';base64,'' @ e) @ takeWhile ?P hash"
    by (intro takeWhile_append2) blast
  then have nf: "takeWhile ?P (''data:'' @ h @ '';base64,'' @ e @ hash) = ''data:'' @ h @ '';base64,'' @ e"
    using th by simp
  let ?u = "''data:'' @ h @ '';base64,'' @ e" and ?r = "h @ '';base64,'' @ e"
  have sw: "startsWith ?u ''data:'' = True" by (simp add: startsWith_def)
  have d5: "drop 5 ?u = ?r" by simp
  have "\<forall>c \<in> set (h @ '';base64''). ?Q c" using assms(1) by auto
  then have "takeWhile ?Q ((h @ '';base64'') @ CHR '','' # e) = h @ '';base64''"
    by (simp add: takeWhile_tail)
  then have hd: "takeWhile ?Q ?r = h @ '';base64''" by simp
  have len: "(length (h @ '';base64'') = length ?r) = False" by simp
  have ends: "endsWith (h @ '';base64'') '';base64'' = True" by (simp add: endsWith_def)
  have body: "drop (Suc (length (h @ '';base64''))) ?r = e" by simp
  show ?thesis
    unfolding dataUriDecode_def Let_def nf
    by (simp only: sw d5 hd len ends body not_True_eq_False if_True if_False)
qed

text \<open>
  Claim C8. Under the inline strategy \<open>downloadBlob\<close> yields the data URI that
  \<^verbatim>\<open>readFileAsDataURL\<close> made of the blob, with a \<^verbatim>\<open>filename\<close> parameter put in at the
  first semicolon and the fragment of the source URL appended; decoding that reference
  gives back the bytes of the blob. The hypotheses are the contracts of what is not in
  the sources: the reader returns a Base64 data URI (\<open>enc\<close> the encoder, \<open>mime\<close> the
  media type it writes, which holds no comma and no hash sign); the decoder \<open>dec\<close>
  inverts the encoder on this payload, whose text holds no hash sign; and the fragment
  that \<^verbatim>\<open>splitUrlByAnchor\<close> returns is empty or starts with the hash sign.
\<close>

theorem inline_roundtrip:
  assumes "saveAs (bp_options p) = ''singleHtml''"
    and "readFileAsDataURL sb (bp_blob p) = Inr (''data:'' @ mime @ '';base64,'' @ enc (blob_data (bp_blob p)))"
    and "dec (enc (blob_data (bp_blob p))) = Some (blob_data (bp_blob p))"
    and "CHR ''#'' \<notin> set (enc (blob_data (bp_blob p)))"
    and "CHR '','' \<notin> set mime" and "CHR ''#'' \<notin> set mime"
    and "snd (splitUrlByAnchor sb (bp_sourceUrl p)) = []
         \<or> hd (snd (splitUrlByAnchor sb (bp_sourceUrl p))) = CHR ''#''"
  shows "case downloadBlob sb br ci p of
           (ci', dls, res) \<Rightarrow>
             ci' = ci \<and> dls = []
             \<and> (\<exists>r. res = Some (Inr r)
                    \<and> dataUriDecode dec (r_url r) = Some (blob_data (bp_blob p)))"
proof -
  let ?e = "enc (blob_data (bp_blob p))"
  let ?hash = "snd (splitUrlByAnchor sb (bp_sourceUrl p))"
  let ?uri = "''data:'' @ mime @ '';base64,'' @ ?e"
  have plain: "dataUriDecode dec (?uri @ ?hash) = Some (blob_data (bp_blob p))"
    using dataUriDecode_base64 [OF assms(5,6,4,7), of dec] assms(3) by simp
  have named: "dataUriDecode dec (replaceFirst CHR '';'' ('';filename='' @ encodeURIComponent f @ '';'') ?uri @ ?hash)
                 = Some (blob_data (bp_blob p))" for f
  proof -
    let ?r = "'';filename='' @ encodeURIComponent f @ '';''"
    have r: "CHR '','' \<notin> set ?r" "CHR ''#'' \<notin> set ?r"
      using encodeURIComponent_plain [of f] by auto
    show ?thesis
    proof (cases "CHR '';'' \<in> set mime")
      case True
      then have u: "replaceFirst CHR '';'' ?r ?uri = ''data:'' @ replaceFirst CHR '';'' ?r mime @ '';base64,'' @ ?e"
        by (simp add: replaceFirst_append)
      have h: "CHR '','' \<notin> set (replaceFirst CHR '';'' ?r mime)" "CHR ''#'' \<notin> set (replaceFirst CHR '';'' ?r mime)"
        using set_replaceFirst [of "CHR '';''" ?r mime] r assms(5,6) by blast+
      show ?thesis
        unfolding u using dataUriDecode_base64 [OF h assms(4,7), of dec] assms(3) by simp
    next
      case False
      then have u: "replaceFirst CHR '';'' ?r ?uri
                      = ''data:'' @ (mime @ '';filename='' @ encodeURIComponent f) @ '';base64,'' @ ?e"
        by (simp add: replaceFirst_append)
      have h: "CHR '','' \<notin> set (mime @ '';filename='' @ encodeURIComponent f)"
        "CHR ''#'' \<notin> set (mime @ '';filename='' @ encodeURIComponent f)"
        using encodeURIComponent_plain [of f] assms(5,6) by auto
      show ?thesis
        unfolding u using dataUriDecode_base64 [OF h assms(4,7), of dec] assms(3) by simp
    qed
  qed
  show ?thesis
    using assms(1,2) plain named
    by (simp add: downloadBlob_def Let_def split: option.splits)
qed

theorem inline_roundtrip_witness:
  "saveAs (bp_options exInline) = ''singleHtml''
   \<and> readFileAsDataURL exScrapbook (bp_blob exInline)
       = Inr (''data:'' @ ''text/css'' @ '';base64,'' @ base64 (blob_data (bp_blob exInline)))
   \<and> unbase64 (base64 (blob_data (bp_blob exInline))) = Some (blob_data (bp_blob exInline))
   \<and> CHR ''#'' \<notin> set (base64 (blob_data (bp_blob exInline)))
   \<and> CHR '','' \<notin> set ''text/css'' \<and> CHR ''#'' \<notin> set ''text/css''
   \<and> hd (snd (splitUrlByAnchor exScrapbook (bp_sourceUrl exInline))) = CHR ''#''
   \<and> snd (snd (downloadBlob exScrapbook exBrowser Map.empty exInline))
       = Some (Inr (plainResponse ''data:text/css;filename=a%20b.css;base64,aGk=#x''))
   \<and> dataUriDecode unbase64 ''data:text/css;filename=a%20b.css;base64,aGk=#x'' = Some ''hi''"
proof -
  have h1: "saveAs (bp_options exInline) = ''singleHtml''" by (simp add: exInline_def exOptions_def)
  have h2: "readFileAsDataURL exScrapbook (bp_blob exInline)
       = Inr (''data:'' @ ''text/css'' @ '';base64,'' @ base64 (blob_data (bp_blob exInline)))"
    by (simp add: exInline_def exScrapbook_def Blob_def)
  have b: "base64 (blob_data (bp_blob exInline)) = ''aGk=''"
    by (simp add: exInline_def Blob_def base64Char_def)
  have h3: "unbase64 (base64 (blob_data (bp_blob exInline))) = Some (blob_data (bp_blob exInline))"
    unfolding b by (simp add: exInline_def Blob_def) code_simp
  have h4: "CHR ''#'' \<notin> set (base64 (blob_data (bp_blob exInline)))" unfolding b by simp
  have h5: "CHR '','' \<notin> set ''text/css''" and h6: "CHR ''#'' \<notin> set ''text/css''" by simp_all
  have h7': "hd (snd (splitUrlByAnchor exScrapbook (bp_sourceUrl exInline))) = CHR ''#''"
    by (simp add: exInline_def exScrapbook_def)
  then have h7: "snd (splitUrlByAnchor exScrapbook (bp_sourceUrl exInline)) = []
         \<or> hd (snd (splitUrlByAnchor exScrapbook (bp_sourceUrl exInline))) = CHR ''#''" ..
  have v: "snd (snd (downloadBlob exScrapbook exBrowser Map.empty exInline))
       = Some (Inr (plainResponse ''data:text/css;filename=a%20b.css;base64,aGk=#x''))"
    by code_simp
  from inline_roundtrip [where enc = base64 and dec = unbase64 and mime = "''text/css''"
      and sb = exScrapbook and p = exInline and br = exBrowser and ci = Map.empty,
      OF h1 h2 h3 h4 h5 h6 h7]
  have "dataUriDecode unbase64 ''data:text/css;filename=a%20b.css;base64,aGk=#x'' = Some ''hi''"
    using v by (auto simp: case_prod_unfold plainResponse_def exInline_def Blob_def)
  with h1 h2 h3 h4 h5 h6 h7' v show ?thesis by simp
qed

subsection \<open>captureTab\<close>

text \<open>
  Claim C9. The session's entry is deleted in the handler that runs when the dispatched
  capture is fulfilled (with a response, with an error record, or with nothing). When the
  dispatched capture is rejected that handler is skipped: only the \<^verbatim>\<open>.catch\<close> handler
  runs, and the registry is left as it was, the session's entry included.
\<close>

theorem captureTab_session_removed_unless_rejected:
  "fst (captureTabSettled sb source t ci (Fulfilled response)) = ci(t := None)
   \<and> fst (captureTabSettled sb source t ci (Rejected ex)) = ci"
  by (cases ex) (simp add: captureTabSettled_def Let_def split: option.splits)

theorem captureTab_rejected_example:
  "fst (captureTabSettled exScrapbook ''[1] http://example.com/'' ''t''
          [''t'' \<mapsto> emptyInfo] (Rejected (Error ''x''))) ''t'' = Some emptyInfo"
  by (simp add: captureTabSettled_def)

subsection \<open>The access deduplicator\<close>

lemma getAccessMap_setAccessMap [simp]:
  "getAccessMap (setAccessMap ci t m) t' = (if t' = t then m else getAccessMap ci t')"
  by (simp add: getAccessMap_def setAccessMap_def getInfo_def)

lemma getAccessMap_ensureInfo [simp]: "getAccessMap (ensureInfo ci t) t' = getAccessMap ci t'"
  by (simp add: getAccessMap_def)

lemma getAccessMap_setFiles [simp]: "getAccessMap (setFiles ci t fs) t' = getAccessMap ci t'"
  by (simp add: getAccessMap_def setFiles_def getInfo_def)

lemma getAccessMap_getUniqueFilename [simp]:
  "getAccessMap (snd (getUniqueFilename sb ci t f)) t' = getAccessMap ci t'"
  by (simp add: getUniqueFilename_def Let_def)

lemma length_setPromise [simp]: "length (setPromise as i v) = length as"
  by (simp add: setPromise_def)

lemma length_setState [simp]: "length (setState as i x) = length as"
  by (simp add: setState_def)

lemma nth_setState:
  "j < length as \<Longrightarrow> setState as i x ! j = (if j = i then (as ! i)\<lparr>a_state := x\<rparr> else as ! j)"
  by (simp add: setState_def nth_list_update)

lemma nth_setPromise:
  "j < length as \<Longrightarrow>
     setPromise as i v ! j
       = (if j = i \<and> a_promise (as ! i) = Pending then (as ! i)\<lparr>a_promise := v\<rparr> else as ! j)"
  by (simp add: setPromise_def nth_list_update)

lemma accessKey_updates [simp]:
  "accessKey sb (a\<lparr>a_state := x\<rparr>) = accessKey sb a"
  "accessKey sb (a\<lparr>a_promise := v\<rparr>) = accessKey sb a"
  "accessKey sb (a\<lparr>a_filename := f\<rparr>) = accessKey sb a"
  "accessKey sb (a\<lparr>a_documentName := d\<rparr>) = accessKey sb a"
  "accessKey sb (a\<lparr>a_xhr := y\<rparr>) = accessKey sb a"
  by (simp_all add: accessKey_def)

text \<open>A request, as far as the access map and the list of accesses go.\<close>

definition requested :: "scrapbook \<Rightarrow> capturer \<Rightarrow> timeId \<times> string \<Rightarrow> nat \<times> capturer \<Rightarrow> bool" where
  "requested sb s k out =
     (case getAccessMap (captureInfo s) (fst k) (snd k) of
        Some j \<Rightarrow>
          fst out = j \<and> accesses (snd out) = accesses s
          \<and> getAccessMap (captureInfo (snd out)) = getAccessMap (captureInfo s)
      | None \<Rightarrow>
          fst out = length (accesses s)
          \<and> (\<exists>a. accesses (snd out) = accesses s @ [a] \<and> accessKey sb a = k
                 \<and> (a_state a \<noteq> Closed \<longrightarrow> a_promise a = Pending))
          \<and> (\<forall>t. getAccessMap (captureInfo (snd out)) t
                   = (if t = fst k then (getAccessMap (captureInfo s) t)(snd k \<mapsto> length (accesses s))
                      else getAccessMap (captureInfo s) t)))"

lemma downloadFile_requested:
  "requested sb s (timeId (p_settings p),
                  getAccessToken sb (fst (splitUrlByAnchor sb (p_url p))) (p_rewriteMethod p))
     (downloadFile sb s p)"
  unfolding requested_def downloadFile_def
  by (auto simp: Let_def accessKey_def case_prod_unfold split: option.splits)

lemma captureUrl_requested:
  "requested sb s (timeId (p_settings p),
                  getAccessToken sb (fst (splitUrlByAnchor sb (p_url p))) (Some ''captureUrl''))
     (captureUrl sb s p)"
  unfolding requested_def captureUrl_def
  by (auto simp: Let_def accessKey_def case_prod_unfold split: option.splits)


text \<open>
  How a later state relates to an earlier one: accesses are only added, the variables of
  a closure never change, a promise that is no longer pending and a request that is
  closed stay as they are, and the access map keeps every entry.
\<close>

definition evolves :: "scrapbook \<Rightarrow> capturer \<Rightarrow> capturer \<Rightarrow> bool" where
  "evolves sb s s' =
     (length (accesses s) \<le> length (accesses s')
      \<and> (\<forall>j < length (accesses s).
            accessKey sb (accesses s' ! j) = accessKey sb (accesses s ! j)
          \<and> a_xhr (accesses s' ! j) = a_xhr (accesses s ! j)
          \<and> a_sourceUrl (accesses s' ! j) = a_sourceUrl (accesses s ! j)
          \<and> a_options (accesses s' ! j) = a_options (accesses s ! j)
          \<and> (a_promise (accesses s ! j) \<noteq> Pending
               \<longrightarrow> a_promise (accesses s' ! j) = a_promise (accesses s ! j))
          \<and> (a_state (accesses s ! j) = Closed \<longrightarrow> a_state (accesses s' ! j) = Closed))
      \<and> (\<forall>t k j. getAccessMap (captureInfo s) t k = Some j
            \<longrightarrow> getAccessMap (captureInfo s') t k = Some j))"

lemma evolves_refl: "evolves sb s s"
  by (simp add: evolves_def)

lemma evolves_trans:
  assumes a: "evolves sb s s1" and b: "evolves sb s1 s2"
  shows "evolves sb s s2"
proof -
  have len: "length (accesses s) \<le> length (accesses s1)" "length (accesses s1) \<le> length (accesses s2)"
    using a b by (simp_all add: evolves_def)
  have acc: "accessKey sb (accesses s2 ! j) = accessKey sb (accesses s ! j)
          \<and> a_xhr (accesses s2 ! j) = a_xhr (accesses s ! j)
          \<and> a_sourceUrl (accesses s2 ! j) = a_sourceUrl (accesses s ! j)
          \<and> a_options (accesses s2 ! j) = a_options (accesses s ! j)
          \<and> (a_promise (accesses s ! j) \<noteq> Pending
               \<longrightarrow> a_promise (accesses s2 ! j) = a_promise (accesses s ! j))
          \<and> (a_state (accesses s ! j) = Closed \<longrightarrow> a_state (accesses s2 ! j) = Closed)"
    if j: "j < length (accesses s)" for j
  proof -
    from j len have j1: "j < length (accesses s1)" by simp
    from a j have A: "accessKey sb (accesses s1 ! j) = accessKey sb (accesses s ! j)
          \<and> a_xhr (accesses s1 ! j) = a_xhr (accesses s ! j)
          \<and> a_sourceUrl (accesses s1 ! j) = a_sourceUrl (accesses s ! j)
          \<and> a_options (accesses s1 ! j) = a_options (accesses s ! j)
          \<and> (a_promise (accesses s ! j) \<noteq> Pending
               \<longrightarrow> a_promise (accesses s1 ! j) = a_promise (accesses s ! j))
          \<and> (a_state (accesses s ! j) = Closed \<longrightarrow> a_state (accesses s1 ! j) = Closed)"
      unfolding evolves_def by blast
    from b j1 have B: "accessKey sb (accesses s2 ! j) = accessKey sb (accesses s1 ! j)
          \<and> a_xhr (accesses s2 ! j) = a_xhr (accesses s1 ! j)
          \<and> a_sourceUrl (accesses s2 ! j) = a_sourceUrl (accesses s1 ! j)
          \<and> a_options (accesses s2 ! j) = a_options (accesses s1 ! j)
          \<and> (a_promise (accesses s1 ! j) \<noteq> Pending
               \<longrightarrow> a_promise (accesses s2 ! j) = a_promise (accesses s1 ! j))
          \<and> (a_state (accesses s1 ! j) = Closed \<longrightarrow> a_state (accesses s2 ! j) = Closed)"
      unfolding evolves_def by blast
    from A B show ?thesis by simp
  qed
  have m: "getAccessMap (captureInfo s2) t k = Some j" if "getAccessMap (captureInfo s) t k = Some j" for t k j
    using a b that unfolding evolves_def by blast
  from len acc m show ?thesis unfolding evolves_def by simp
qed

lemma consistentI:
  assumes "\<And>i. i < length (accesses s) \<Longrightarrow> a_state (accesses s ! i) \<noteq> Closed
             \<Longrightarrow> a_promise (accesses s ! i) = Pending"
    and "\<And>i. i < length (accesses s) \<Longrightarrow>
            getAccessMap (captureInfo s) (fst (accessKey sb (accesses s ! i)))
              (snd (accessKey sb (accesses s ! i))) = Some i"
    and "\<And>t k j. getAccessMap (captureInfo s) t k = Some j \<Longrightarrow> j < length (accesses s)"
  shows "consistent sb s"
  using assms unfolding consistent_def by blast

lemma consistent_pending:
  "consistent sb s \<Longrightarrow> i < length (accesses s) \<Longrightarrow> a_state (accesses s ! i) \<noteq> Closed
     \<Longrightarrow> a_promise (accesses s ! i) = Pending"
  unfolding consistent_def by blast

lemma consistent_key:
  "consistent sb s \<Longrightarrow> i < length (accesses s) \<Longrightarrow>
     getAccessMap (captureInfo s) (fst (accessKey sb (accesses s ! i)))
       (snd (accessKey sb (accesses s ! i))) = Some i"
  unfolding consistent_def by blast

lemma consistent_bound:
  "consistent sb s \<Longrightarrow> getAccessMap (captureInfo s) t k = Some j \<Longrightarrow> j < length (accesses s)"
  unfolding consistent_def by blast

text \<open>
  What the handler of an event of the \<open>i\<close>-th access does to the state: it replaces that
  access, which was not closed, by one with the same closure variables whose promise is
  the old one unless the access is now closed; and it leaves the access map as it is or
  adds one entry for \<open>i\<close> under a token that had none.
\<close>

definition touches :: "scrapbook \<Rightarrow> capturer \<Rightarrow> nat \<Rightarrow> capturer \<Rightarrow> bool" where
  "touches sb s i s' =
     (i < length (accesses s) \<and> a_state (accesses s ! i) \<noteq> Closed
      \<and> (\<exists>a'. accesses s' = (accesses s)[i := a']
             \<and> accessKey sb a' = accessKey sb (accesses s ! i)
             \<and> a_xhr a' = a_xhr (accesses s ! i)
             \<and> a_sourceUrl a' = a_sourceUrl (accesses s ! i)
             \<and> a_options a' = a_options (accesses s ! i)
             \<and> (a_state a' \<noteq> Closed \<longrightarrow> a_promise a' = a_promise (accesses s ! i))
             \<and> (a_promise (accesses s ! i) \<noteq> Pending \<longrightarrow> a_promise a' = a_promise (accesses s ! i)))
      \<and> (getAccessMap (captureInfo s') = getAccessMap (captureInfo s)
          \<or> (\<exists>k0. getAccessMap (captureInfo s) (a_timeId (accesses s ! i)) k0 = None
                \<and> (\<forall>t. getAccessMap (captureInfo s') t
                         = (if t = a_timeId (accesses s ! i)
                            then (getAccessMap (captureInfo s) t)(k0 \<mapsto> i)
                            else getAccessMap (captureInfo s) t)))))"

lemma touches_map:
  assumes "touches sb s i s'" and "getAccessMap (captureInfo s) t k = Some j"
  shows "getAccessMap (captureInfo s') t k = Some j"
proof -
  from assms(1) consider "getAccessMap (captureInfo s') = getAccessMap (captureInfo s)"
    | k0 where "getAccessMap (captureInfo s) (a_timeId (accesses s ! i)) k0 = None"
        "\<forall>t. getAccessMap (captureInfo s') t
                         = (if t = a_timeId (accesses s ! i)
                            then (getAccessMap (captureInfo s) t)(k0 \<mapsto> i)
                            else getAccessMap (captureInfo s) t)"
    unfolding touches_def by blast
  then show ?thesis
  proof cases
    case 1
    with assms(2) show ?thesis by simp
  next
    case 2
    with assms(2) show ?thesis by (cases "t = a_timeId (accesses s ! i)") auto
  qed
qed

lemma touches_map_cases:
  assumes "touches sb s i s'" and "getAccessMap (captureInfo s') t k = Some j"
  shows "getAccessMap (captureInfo s) t k = Some j \<or> j = i"
proof -
  from assms(1) consider "getAccessMap (captureInfo s') = getAccessMap (captureInfo s)"
    | k0 where "getAccessMap (captureInfo s) (a_timeId (accesses s ! i)) k0 = None"
        "\<forall>t. getAccessMap (captureInfo s') t
                         = (if t = a_timeId (accesses s ! i)
                            then (getAccessMap (captureInfo s) t)(k0 \<mapsto> i)
                            else getAccessMap (captureInfo s) t)"
    unfolding touches_def by blast
  then show ?thesis
  proof cases
    case 1
    with assms(2) show ?thesis by simp
  next
    case 2
    with assms(2) show ?thesis
      by (cases "t = a_timeId (accesses s ! i)") (auto split: if_splits)
  qed
qed

lemma touches_evolves:
  assumes t: "touches sb s i s'"
  shows "evolves sb s s'"
proof -
  from t obtain a' where i: "i < length (accesses s)"
    and acc: "accesses s' = (accesses s)[i := a']"
    and a': "accessKey sb a' = accessKey sb (accesses s ! i)" "a_xhr a' = a_xhr (accesses s ! i)"
      "a_sourceUrl a' = a_sourceUrl (accesses s ! i)" "a_options a' = a_options (accesses s ! i)"
      "a_promise (accesses s ! i) \<noteq> Pending \<longrightarrow> a_promise a' = a_promise (accesses s ! i)"
    and nc: "a_state (accesses s ! i) \<noteq> Closed"
    unfolding touches_def by blast
  show ?thesis
    unfolding evolves_def
    using i a' nc touches_map [OF t]
    by (auto simp: acc nth_list_update)
qed

lemma touches_consistent:
  assumes c: "consistent sb s" and t: "touches sb s i s'"
  shows "consistent sb s'"
proof -
  from t obtain a' where i: "i < length (accesses s)"
    and acc: "accesses s' = (accesses s)[i := a']"
    and key: "accessKey sb a' = accessKey sb (accesses s ! i)"
    and keep: "a_state a' \<noteq> Closed \<longrightarrow> a_promise a' = a_promise (accesses s ! i)"
    and nc: "a_state (accesses s ! i) \<noteq> Closed"
    unfolding touches_def by blast
  from consistent_pending [OF c i nc] have p: "a_promise (accesses s ! i) = Pending" .
  show ?thesis
  proof (rule consistentI)
    fix j assume "j < length (accesses s')" "a_state (accesses s' ! j) \<noteq> Closed"
    then show "a_promise (accesses s' ! j) = Pending"
      using keep p consistent_pending [OF c, of j]
      by (cases "j = i") (simp_all add: acc)
  next
    fix j assume j: "j < length (accesses s')"
    then have "accessKey sb (accesses s' ! j) = accessKey sb (accesses s ! j)"
      using key by (cases "j = i") (simp_all add: acc)
    moreover have "getAccessMap (captureInfo s) (fst (accessKey sb (accesses s ! j)))
              (snd (accessKey sb (accesses s ! j))) = Some j"
      using consistent_key [OF c, of j] j by (simp add: acc)
    ultimately show "getAccessMap (captureInfo s') (fst (accessKey sb (accesses s' ! j)))
              (snd (accessKey sb (accesses s' ! j))) = Some j"
      using touches_map [OF t] by simp
  next
    fix t' k j assume "getAccessMap (captureInfo s') t' k = Some j"
    from touches_map_cases [OF t this] show "j < length (accesses s')"
      using consistent_bound [OF c, of t' k j] i by (auto simp: acc)
  qed
qed

lemma update_accesses: "s\<lparr>accesses := as\<rparr> = \<lparr>captureInfo = captureInfo s, accesses = as\<rparr>"
  by (cases s) simp

lemma onload_touches: "onload s i = s \<or> touches sb s i (onload s i)"
  by (auto simp: onload_def touches_def setState_def)

lemma onerror_touches: "onerror sb s i ex = s \<or> touches sb s i (onerror sb s i ex)"
  by (auto simp: onerror_def touches_def setState_def rejectWith_def setPromise_def)

lemma onchain_touches: "onchain sb s i out = s \<or> touches sb s i (onchain sb s i out)"
  by (auto simp: onchain_def touches_def setState_def rejectWith_def resolveWith_def setPromise_def
      split: sum.splits)


lemma redirectCheck_Inl:
  assumes "redirectCheck sb s i h = Inl s'" and "i < length (accesses s)"
    and "a_state (accesses s ! i) \<noteq> Closed"
  shows "touches sb s i s'"
  using assms
  by (auto simp: redirectCheck_def touches_def Let_def setState_def setPromise_def
      split: if_splits option.splits)

lemma redirectCheck_Inr:
  assumes "redirectCheck sb s i h = Inr s1"
  shows "accesses s1 = accesses s
       \<and> (getAccessMap (captureInfo s1) = getAccessMap (captureInfo s)
          \<or> (\<exists>k0. getAccessMap (captureInfo s) (a_timeId (accesses s ! i)) k0 = None
                \<and> (\<forall>t. getAccessMap (captureInfo s1) t
                         = (if t = a_timeId (accesses s ! i)
                            then (getAccessMap (captureInfo s) t)(k0 \<mapsto> i)
                            else getAccessMap (captureInfo s) t))))"
proof (cases "fst (splitUrlByAnchor sb (h_responseURL h)) \<noteq> a_sourceUrlMain (accesses s ! i)")
  case False
  with assms show ?thesis by (simp add: redirectCheck_def Let_def)
next
  case True
  let ?k = "getAccessToken sb (fst (splitUrlByAnchor sb (h_responseURL h))) (a_rewriteMethod (accesses s ! i))"
  from assms True have none: "getAccessMap (captureInfo s) (a_timeId (accesses s ! i)) ?k = None"
    by (auto simp: redirectCheck_def Let_def split: option.splits)
  with assms True have s1: "s1 = s\<lparr>captureInfo :=
                           setAccessMap (captureInfo s) (a_timeId (accesses s ! i))
                             ((getAccessMap (captureInfo s) (a_timeId (accesses s ! i)))(?k \<mapsto> i))\<rparr>"
    by (auto simp: redirectCheck_def Let_def)
  have "\<forall>t. getAccessMap (captureInfo s1) t
                         = (if t = a_timeId (accesses s ! i)
                            then (getAccessMap (captureInfo s) t)(?k \<mapsto> i)
                            else getAccessMap (captureInfo s) t)"
    by (simp add: s1)
  with none show ?thesis by (auto simp: s1)
qed

lemma nameFile_effect:
  "\<exists>f. accesses (nameFile sb s i h) = (accesses s)[i := (accesses s ! i)\<lparr>a_filename := f, a_state := Received\<rparr>]
       \<and> getAccessMap (captureInfo (nameFile sb s i h)) = getAccessMap (captureInfo s)"
  by (auto simp: nameFile_def Let_def case_prod_unfold)

lemma nameDocument_effect:
  "\<exists>d. accesses (nameDocument sb s i h) = (accesses s)[i := (accesses s ! i)\<lparr>a_documentName := d, a_state := Received\<rparr>]
       \<and> getAccessMap (captureInfo (nameDocument sb s i h)) = getAccessMap (captureInfo s)"
  by (auto simp: nameDocument_def Let_def)

lemma onreadystatechange_touches:
  "onreadystatechange sb s i h = s \<or> touches sb s i (onreadystatechange sb s i h)"
proof (cases "i < length (accesses s) \<and> a_state (accesses s ! i) = Sent")
  case False
  then show ?thesis by (auto simp: onreadystatechange_def)
next
  case True
  then have i: "i < length (accesses s)" and nc: "a_state (accesses s ! i) \<noteq> Closed" by simp_all
  show ?thesis
  proof (cases "redirectCheck sb s i h")
    case (Inl s')
    with True have "onreadystatechange sb s i h = s'" by (simp add: onreadystatechange_def)
    with redirectCheck_Inl [OF Inl i nc] show ?thesis by simp
  next
    case (Inr s1)
    note r = redirectCheck_Inr [OF Inr]
    let ?s' = "onreadystatechange sb s i h"
    have "\<exists>a'. accesses ?s' = (accesses s)[i := a']
             \<and> accessKey sb a' = accessKey sb (accesses s ! i)
             \<and> a_xhr a' = a_xhr (accesses s ! i)
             \<and> a_sourceUrl a' = a_sourceUrl (accesses s ! i)
             \<and> a_options a' = a_options (accesses s ! i)
             \<and> a_promise a' = a_promise (accesses s ! i)
             \<and> getAccessMap (captureInfo ?s') = getAccessMap (captureInfo s1)"
    proof (cases "a_kind (accesses s ! i)")
      case ForFile
      with True Inr have e: "?s' = nameFile sb s1 i h" by (simp add: onreadystatechange_def)
      from nameFile_effect [of sb s1 i h] r show ?thesis
        unfolding e by (auto simp: accessKey_def)
    next
      case ForUrl
      with True Inr have e: "?s' = nameDocument sb s1 i h" by (simp add: onreadystatechange_def)
      from nameDocument_effect [of sb s1 i h] r show ?thesis
        unfolding e by (auto simp: accessKey_def)
    qed
    then obtain a' where a': "accesses ?s' = (accesses s)[i := a']"
             "accessKey sb a' = accessKey sb (accesses s ! i)"
             "a_xhr a' = a_xhr (accesses s ! i)"
             "a_sourceUrl a' = a_sourceUrl (accesses s ! i)"
             "a_options a' = a_options (accesses s ! i)"
             "a_promise a' = a_promise (accesses s ! i)"
         and m: "getAccessMap (captureInfo ?s') = getAccessMap (captureInfo s1)" by blast
    have "touches sb s i ?s'"
      unfolding touches_def using i nc a' r by (simp add: m) blast
    then show ?thesis ..
  qed
qed

lemma handler_effect:
  "requestKey sb ev = None \<Longrightarrow> fst (step sb s ev) = None
     \<and> (snd (step sb s ev) = s \<or> (\<exists>i. touches sb s i (snd (step sb s ev))))"
  using onreadystatechange_touches onload_touches onerror_touches onchain_touches
  by (cases ev) (fastforce+)


lemma requested_evolves:
  assumes "requested sb s k out"
  shows "evolves sb s (snd out)"
proof (cases "getAccessMap (captureInfo s) (fst k) (snd k)")
  case (Some j)
  with assms show ?thesis by (simp add: requested_def evolves_def)
next
  case None
  with assms obtain a where acc: "accesses (snd out) = accesses s @ [a]"
    and m: "\<forall>t. getAccessMap (captureInfo (snd out)) t
                   = (if t = fst k then (getAccessMap (captureInfo s) t)(snd k \<mapsto> length (accesses s))
                      else getAccessMap (captureInfo s) t)"
    by (auto simp: requested_def)
  have "getAccessMap (captureInfo (snd out)) t k' = Some j"
    if "getAccessMap (captureInfo s) t k' = Some j" for t k' j
    using that None m by (cases "t = fst k") auto
  then show ?thesis
    unfolding evolves_def by (simp add: acc nth_append)
qed

lemma requested_consistent:
  assumes c: "consistent sb s" and r: "requested sb s k out"
  shows "consistent sb (snd out)"
proof (cases "getAccessMap (captureInfo s) (fst k) (snd k)")
  case (Some j)
  with r have "accesses (snd out) = accesses s"
    "getAccessMap (captureInfo (snd out)) = getAccessMap (captureInfo s)"
    by (simp_all add: requested_def)
  with c show ?thesis by (simp add: consistent_def)
next
  case None
  with r obtain a where acc: "accesses (snd out) = accesses s @ [a]"
    and key: "accessKey sb a = k"
    and pend: "a_state a \<noteq> Closed \<longrightarrow> a_promise a = Pending"
    and m: "\<forall>t. getAccessMap (captureInfo (snd out)) t
                   = (if t = fst k then (getAccessMap (captureInfo s) t)(snd k \<mapsto> length (accesses s))
                      else getAccessMap (captureInfo s) t)"
    by (auto simp: requested_def)
  show ?thesis
  proof (rule consistentI)
    fix j assume "j < length (accesses (snd out))" "a_state (accesses (snd out) ! j) \<noteq> Closed"
    then show "a_promise (accesses (snd out) ! j) = Pending"
      using pend consistent_pending [OF c, of j]
      by (cases "j < length (accesses s)") (auto simp: acc nth_append)
  next
    fix j assume j: "j < length (accesses (snd out))"
    show "getAccessMap (captureInfo (snd out)) (fst (accessKey sb (accesses (snd out) ! j)))
              (snd (accessKey sb (accesses (snd out) ! j))) = Some j"
    proof (cases "j < length (accesses s)")
      case True
      from consistent_key [OF c True] None
      have "accessKey sb (accesses s ! j) \<noteq> k" by (cases k) auto
      with consistent_key [OF c True] True show ?thesis
        using m by (auto simp: acc nth_append prod_eq_iff)
    next
      case False
      with j have "j = length (accesses s)" by (simp add: acc)
      then show ?thesis using key m by (simp add: acc)
    qed
  next
    fix t k' j assume "getAccessMap (captureInfo (snd out)) t k' = Some j"
    then show "j < length (accesses (snd out))"
      using m consistent_bound [OF c, of t k' j]
      by (cases "t = fst k") (auto simp: acc split: if_splits)
  qed
qed

lemma request_effect:
  assumes "requestKey sb ev = Some k"
  shows "\<exists>j s'. step sb s ev = (Some j, s') \<and> requested sb s k (j, s')"
proof (cases ev)
  case (DownloadFile p)
  with assms downloadFile_requested [of sb s p] show ?thesis
    by (cases "downloadFile sb s p") auto
next
  case (CaptureUrl p)
  with assms captureUrl_requested [of sb s p] show ?thesis
    by (cases "captureUrl sb s p") auto
qed (use assms in simp_all)

lemma step_evolves: "evolves sb s (snd (step sb s ev))"
proof (cases "requestKey sb ev")
  case None
  from handler_effect [OF None, of s] show ?thesis
    using touches_evolves evolves_refl by metis
next
  case (Some k)
  from request_effect [OF Some, of s] obtain j s' where "step sb s ev = (Some j, s')"
    "requested sb s k (j, s')" by blast
  with requested_evolves [of sb s k "(j, s')"] show ?thesis by simp
qed

lemma step_consistent: "consistent sb s \<Longrightarrow> consistent sb (snd (step sb s ev))"
proof (cases "requestKey sb ev")
  case None
  assume c: "consistent sb s"
  from handler_effect [OF None, of s] show ?thesis
    using touches_consistent [OF c] c by metis
next
  case (Some k)
  assume c: "consistent sb s"
  from request_effect [OF Some, of s] obtain j s' where "step sb s ev = (Some j, s')"
    "requested sb s k (j, s')" by blast
  with requested_consistent [OF c, of k "(j, s')"] show ?thesis by simp
qed

lemma run_Cons:
  "run sb s (ev # evs) = (fst (step sb s ev) # fst (run sb (snd (step sb s ev)) evs),
                         snd (run sb (snd (step sb s ev)) evs))"
  by (simp add: case_prod_unfold Let_def)

declare run.simps(2) [simp del]
declare run_Cons [simp]

lemma run_append:
  "snd (run sb s (evs @ evs')) = snd (run sb (snd (run sb s evs)) evs')"
  by (induction evs arbitrary: s) simp_all

lemma run_evolves: "evolves sb s (snd (run sb s evs))"
proof (induction evs arbitrary: s)
  case Nil
  show ?case by (simp add: evolves_refl)
next
  case (Cons ev evs)
  from evolves_trans [OF step_evolves Cons.IH] show ?case by simp
qed

lemma run_consistent: "consistent sb s \<Longrightarrow> consistent sb (snd (run sb s evs))"
proof (induction evs arbitrary: s)
  case Nil
  then show ?case by simp
next
  case (Cons ev evs)
  from Cons.IH [OF step_consistent [OF Cons.prems]] show ?case by simp
qed

lemma init_consistent: "consistent sb init"
  by (simp add: consistent_def init_def getAccessMap_def getInfo_def emptyInfo_def)

lemma reachable_consistent: "reachable sb s \<Longrightarrow> consistent sb s"
  unfolding reachable_def using run_consistent [OF init_consistent] by blast

lemma reachable_run: "reachable sb s \<Longrightarrow> reachable sb (snd (run sb s evs))"
  unfolding reachable_def using run_append by metis


lemma run_length [simp]: "length (fst (run sb s evs)) = length evs"
  by (induction evs arbitrary: s) simp_all

lemma requested_entry:
  "requested sb s k out \<Longrightarrow> getAccessMap (captureInfo (snd out)) (fst k) (snd k) = Some (fst out)"
  by (auto simp: requested_def split: option.splits)

lemma evolves_map:
  "evolves sb s s' \<Longrightarrow> getAccessMap (captureInfo s) t k = Some j
     \<Longrightarrow> getAccessMap (captureInfo s') t k = Some j"
  unfolding evolves_def by blast

lemma run_returns:
  "i < length evs \<Longrightarrow> requestKey sb (evs ! i) = Some k \<Longrightarrow>
     \<exists>j. fst (run sb s evs) ! i = Some j
        \<and> getAccessMap (captureInfo (snd (run sb s evs))) (fst k) (snd k) = Some j"
proof (induction evs arbitrary: s i)
  case Nil
  then show ?case by simp
next
  case (Cons ev evs)
  show ?case
  proof (cases i)
    case 0
    with Cons.prems have key: "requestKey sb ev = Some k" by simp
    from request_effect [OF key, of s] obtain j s1 where st: "step sb s ev = (Some j, s1)"
      and r: "requested sb s k (j, s1)" by blast
    from requested_entry [OF r] have "getAccessMap (captureInfo s1) (fst k) (snd k) = Some j" by simp
    from evolves_map [OF run_evolves this, of sb evs]
    show ?thesis using 0 st by simp
  next
    case (Suc i')
    with Cons.prems have "i' < length evs" "requestKey sb (evs ! i') = Some k" by simp_all
    from Cons.IH [OF this, of "snd (step sb s ev)"] show ?thesis using Suc by simp
  qed
qed

lemma at_most_one:
  assumes "\<And>i j. i < length xs \<Longrightarrow> j < length xs \<Longrightarrow> P (xs ! i) \<Longrightarrow> P (xs ! j) \<Longrightarrow> i = j"
    and "\<And>x. \<not> P x \<Longrightarrow> g x = []" and "\<And>x. length (g x) \<le> 1"
  shows "length (concat (map g xs)) \<le> 1"
  using assms(1)
proof (induction xs)
  case Nil
  show ?case by simp
next
  case (Cons x xs)
  have uniq: "i = j" if "i < length xs" "j < length xs" "P (xs ! i)" "P (xs ! j)" for i j
    using Cons.prems [of "Suc i" "Suc j"] that by simp
  show ?case
  proof (cases "P x")
    case False
    with assms(2) Cons.IH uniq show ?thesis by simp
  next
    case True
    have "\<not> P y" if "y \<in> set xs" for y
    proof
      assume "P y"
      from that obtain i where "i < length xs" "xs ! i = y" by (auto simp: in_set_conv_nth)
      with Cons.prems [of 0 "Suc i"] True \<open>P y\<close> show False by simp
    qed
    with assms(2) have e: "concat (map g xs) = []" by simp
    have "concat (map g (x # xs)) = g x @ concat (map g xs)" by simp
    also have "\<dots> = g x" by (simp only: e append_Nil2)
    finally have "concat (map g (x # xs)) = g x" .
    then show ?thesis by (subst \<open>concat (map g (x # xs)) = g x\<close>) (rule assms(3))
  qed
qed

lemma requestsFor_at_most_one:
  assumes c: "consistent sb s"
  shows "length (requestsFor sb s k) \<le> 1"
  unfolding requestsFor_def
proof (rule at_most_one [where P = "\<lambda>a. accessKey sb a = k"])
  fix i j assume "i < length (accesses s)" "j < length (accesses s)"
    "accessKey sb (accesses s ! i) = k" "accessKey sb (accesses s ! j) = k"
  with consistent_key [OF c, of i] consistent_key [OF c, of j] show "i = j" by simp
qed (auto split: option.splits)

lemma requestsFor_none:
  assumes c: "consistent sb s" and "getAccessMap (captureInfo s) (fst k) (snd k) = None"
  shows "requestsFor sb s k = []"
proof -
  have "accessKey sb a \<noteq> k" if "a \<in> set (accesses s)" for a
  proof -
    from that obtain i where "i < length (accesses s)" "accesses s ! i = a"
      by (auto simp: in_set_conv_nth)
    with consistent_key [OF c, of i] assms(2) show ?thesis by auto
  qed
  then show ?thesis by (auto simp: requestsFor_def split: option.splits)
qed

lemma requestsFor_append:
  "accesses s' = accesses s @ [a] \<Longrightarrow>
     requestsFor sb s' k
       = requestsFor sb s k @ (case a_xhr a of None \<Rightarrow> [] | Some x \<Rightarrow> if accessKey sb a = k then [x] else [])"
  by (simp add: requestsFor_def)

lemma downloadFile_miss:
  assumes "requestKey sb (DownloadFile p) = Some k"
    and "getAccessMap (captureInfo s) (fst k) (snd k) = None"
  shows "\<exists>a. accesses (snd (downloadFile sb s p)) = accesses s @ [a] \<and> accessKey sb a = k
           \<and> a_xhr a = (if startsWith (fst (splitUrlByAnchor sb (p_url p))) ''data:'' then None
                        else Some \<lparr>xhr_url = p_url p, xhr_responseType = ''blob'',
                                   xhr_referer = referer (p_refUrl p)\<rparr>)"
  using assms
  by (auto simp: downloadFile_def Let_def accessKey_def case_prod_unfold split: option.splits)

lemma captureUrl_miss:
  assumes "requestKey sb (CaptureUrl p) = Some k"
    and "getAccessMap (captureInfo s) (fst k) (snd k) = None"
  shows "\<exists>a. accesses (snd (captureUrl sb s p)) = accesses s @ [a] \<and> accessKey sb a = k
           \<and> a_xhr a = Some \<lparr>xhr_url = (if startsWith (p_url p) ''data:''
                                          then fst (splitUrlByAnchor sb (p_url p)) else p_url p),
                              xhr_responseType = ''document'',
                              xhr_referer = referer (p_refUrl p)\<rparr>"
  using assms
  by (auto simp: captureUrl_def Let_def accessKey_def split: option.splits)

text \<open>
  Claim C1, as amended. In a state the capturer reaches, and for any further events:
  two requests (\<open>downloadFile\<close> or \<open>captureUrl\<close>) of one session whose tokens are equal
  (the URLs are equal up to the fragment, and so are the rewrite methods) return the same
  promise, hence the same result; no key ever has more than one network request. A request
  that finds an entry under its key returns it and starts nothing; a request that finds none
  returns a new promise and starts one network request, unless it is a \<open>downloadFile\<close> of
  a \<^verbatim>\<open>data:\<close> URI, for which no network request is made at all.
\<close>
theorem one_access_per_key:
  assumes "reachable sb s"
  shows "(\<forall>i < length evs. \<forall>j < length evs.
            requestKey sb (evs ! i) \<noteq> None \<and> requestKey sb (evs ! i) = requestKey sb (evs ! j)
              \<longrightarrow> fst (run sb s evs) ! i = fst (run sb s evs) ! j \<and> fst (run sb s evs) ! i \<noteq> None)
       \<and> (\<forall>k. length (requestsFor sb (snd (run sb s evs)) k) \<le> 1)
       \<and> (\<forall>p k. requestKey sb (DownloadFile p) = Some k \<longrightarrow>
            (case getAccessMap (captureInfo s) (fst k) (snd k) of
               Some j \<Rightarrow> fst (downloadFile sb s p) = j
                         \<and> accesses (snd (downloadFile sb s p)) = accesses s
             | None \<Rightarrow> fst (downloadFile sb s p) = length (accesses s)
                       \<and> requestsFor sb (snd (downloadFile sb s p)) k
                           = (if startsWith (fst (splitUrlByAnchor sb (p_url p))) ''data:'' then []
                              else [\<lparr>xhr_url = p_url p, xhr_responseType = ''blob'',
                                     xhr_referer = referer (p_refUrl p)\<rparr>])))
       \<and> (\<forall>p k. requestKey sb (CaptureUrl p) = Some k \<longrightarrow>
            (case getAccessMap (captureInfo s) (fst k) (snd k) of
               Some j \<Rightarrow> fst (captureUrl sb s p) = j
                         \<and> accesses (snd (captureUrl sb s p)) = accesses s
             | None \<Rightarrow> fst (captureUrl sb s p) = length (accesses s)
                       \<and> requestsFor sb (snd (captureUrl sb s p)) k
                           = [\<lparr>xhr_url = (if startsWith (p_url p) ''data:''
                                          then fst (splitUrlByAnchor sb (p_url p)) else p_url p),
                               xhr_responseType = ''document'',
                               xhr_referer = referer (p_refUrl p)\<rparr>]))"
proof -
  note c = reachable_consistent [OF assms]
  have same: "fst (run sb s evs) ! i = fst (run sb s evs) ! j \<and> fst (run sb s evs) ! i \<noteq> None"
    if "i < length evs" "j < length evs" "requestKey sb (evs ! i) \<noteq> None"
      "requestKey sb (evs ! i) = requestKey sb (evs ! j)" for i j
  proof -
    from that(3) obtain k where k: "requestKey sb (evs ! i) = Some k" by blast
    with that(4) have k': "requestKey sb (evs ! j) = Some k" by simp
    from run_returns [OF that(1) k, of s] obtain a where
      a: "fst (run sb s evs) ! i = Some a"
         "getAccessMap (captureInfo (snd (run sb s evs))) (fst k) (snd k) = Some a" by blast
    from run_returns [OF that(2) k', of s] obtain b where
      b: "fst (run sb s evs) ! j = Some b"
         "getAccessMap (captureInfo (snd (run sb s evs))) (fst k) (snd k) = Some b" by blast
    from a b show ?thesis by simp
  qed
  have one: "length (requestsFor sb (snd (run sb s evs)) k) \<le> 1" for k
    by (rule requestsFor_at_most_one [OF run_consistent [OF c]])
  have df: "case getAccessMap (captureInfo s) (fst k) (snd k) of
               Some j \<Rightarrow> fst (downloadFile sb s p) = j
                         \<and> accesses (snd (downloadFile sb s p)) = accesses s
             | None \<Rightarrow> fst (downloadFile sb s p) = length (accesses s)
                       \<and> requestsFor sb (snd (downloadFile sb s p)) k
                           = (if startsWith (fst (splitUrlByAnchor sb (p_url p))) ''data:'' then []
                              else [\<lparr>xhr_url = p_url p, xhr_responseType = ''blob'',
                                     xhr_referer = referer (p_refUrl p)\<rparr>])"
    if key: "requestKey sb (DownloadFile p) = Some k" for p k
  proof (cases "getAccessMap (captureInfo s) (fst k) (snd k)")
    case (Some j)
    with downloadFile_requested [of sb s p] key show ?thesis by (auto simp: requested_def)
  next
    case None
    from downloadFile_miss [OF key None] obtain a where
      a: "accesses (snd (downloadFile sb s p)) = accesses s @ [a]" "accessKey sb a = k"
      "a_xhr a = (if startsWith (fst (splitUrlByAnchor sb (p_url p))) ''data:'' then None
                        else Some \<lparr>xhr_url = p_url p, xhr_responseType = ''blob'',
                                   xhr_referer = referer (p_refUrl p)\<rparr>)" by blast
    from downloadFile_requested [of sb s p] key None
    have "fst (downloadFile sb s p) = length (accesses s)" by (auto simp: requested_def)
    then show ?thesis
      using None a requestsFor_none [OF c None] by (simp add: requestsFor_append [OF a(1)])
  qed
  have cu: "case getAccessMap (captureInfo s) (fst k) (snd k) of
               Some j \<Rightarrow> fst (captureUrl sb s p) = j
                         \<and> accesses (snd (captureUrl sb s p)) = accesses s
             | None \<Rightarrow> fst (captureUrl sb s p) = length (accesses s)
                       \<and> requestsFor sb (snd (captureUrl sb s p)) k
                           = [\<lparr>xhr_url = (if startsWith (p_url p) ''data:''
                                          then fst (splitUrlByAnchor sb (p_url p)) else p_url p),
                               xhr_responseType = ''document'',
                               xhr_referer = referer (p_refUrl p)\<rparr>]"
    if key: "requestKey sb (CaptureUrl p) = Some k" for p k
  proof (cases "getAccessMap (captureInfo s) (fst k) (snd k)")
    case (Some j)
    with captureUrl_requested [of sb s p] key show ?thesis by (auto simp: requested_def)
  next
    case None
    from captureUrl_miss [OF key None] obtain a where
      a: "accesses (snd (captureUrl sb s p)) = accesses s @ [a]" "accessKey sb a = k"
      "a_xhr a = Some \<lparr>xhr_url = (if startsWith (p_url p) ''data:''
                                          then fst (splitUrlByAnchor sb (p_url p)) else p_url p),
                              xhr_responseType = ''document'',
                              xhr_referer = referer (p_refUrl p)\<rparr>" by blast
    from captureUrl_requested [of sb s p] key None
    have "fst (captureUrl sb s p) = length (accesses s)" by (auto simp: requested_def)
    then show ?thesis
      using None a requestsFor_none [OF c None] by (simp add: requestsFor_append [OF a(1)])
  qed
  from same one df cu show ?thesis by blast
qed


lemma evolves_promise:
  "evolves sb s s' \<Longrightarrow> i < length (accesses s) \<Longrightarrow> a_promise (accesses s ! i) \<noteq> Pending
     \<Longrightarrow> a_promise (accesses s' ! i) = a_promise (accesses s ! i)"
  unfolding evolves_def by blast

lemma evolves_closed:
  "evolves sb s s' \<Longrightarrow> i < length (accesses s) \<Longrightarrow> a_state (accesses s ! i) = Closed
     \<Longrightarrow> a_state (accesses s' ! i) = Closed"
  unfolding evolves_def by blast

lemma evolves_length: "evolves sb s s' \<Longrightarrow> length (accesses s) \<le> length (accesses s')"
  unfolding evolves_def by blast

lemma evolves_key:
  "evolves sb s s' \<Longrightarrow> i < length (accesses s)
     \<Longrightarrow> accessKey sb (accesses s' ! i) = accessKey sb (accesses s ! i)"
  unfolding evolves_def by blast

lemma settlesTo_adopted_iff:
  assumes "i < length as" and "a_promise (as ! i) = Adopted q"
  shows "settlesTo as i r \<longleftrightarrow> settlesTo as q r"
proof
  assume "settlesTo as i r"
  then show "settlesTo as q r" using assms(2) by cases simp_all
next
  assume "settlesTo as q r"
  with assms show "settlesTo as i r" by (rule settlesTo.adopted)
qed

text \<open>A request returns what the access map holds under its key, and adds nothing.\<close>

lemma request_hit:
  assumes "requestKey sb ev = Some k" and "getAccessMap (captureInfo s) (fst k) (snd k) = Some j"
  shows "fst (step sb s ev) = Some j \<and> accesses (snd (step sb s ev)) = accesses s"
proof -
  from request_effect [OF assms(1), of s] obtain j' s' where "step sb s ev = (Some j', s')"
    "requested sb s k (j', s')" by blast
  with assms(2) show ?thesis by (simp add: requested_def)
qed

text \<open>
  Claim C2. A request waits for its headers, and the response URL differs from the request
  URL after the fragments are removed. If the access map of the session holds an entry
  under the token of the response URL, the promise of the request is resolved with that
  entry and the request is aborted, the access map is left as it was, and from then on
  the promise is fulfilled with exactly what the entry is fulfilled with; if the entry was
  already fulfilled, the promise is fulfilled with the same result. Otherwise the token of
  the response URL is registered for the promise of the request, which stays pending.
\<close>
theorem redirect_merges:
  assumes "reachable sb s" and "i < length (accesses s)" and "a_state (accesses s ! i) = Sent"
    and "fst (splitUrlByAnchor sb (h_responseURL h)) \<noteq> a_sourceUrlMain (accesses s ! i)"
  shows "case getAccessMap (captureInfo s) (a_timeId (accesses s ! i))
                (getAccessToken sb (fst (splitUrlByAnchor sb (h_responseURL h)))
                   (a_rewriteMethod (accesses s ! i))) of
           Some q \<Rightarrow>
             captureInfo (onreadystatechange sb s i h) = captureInfo s
           \<and> (\<forall>evs. a_promise (accesses (snd (run sb (onreadystatechange sb s i h) evs)) ! i) = Adopted q
                   \<and> a_state (accesses (snd (run sb (onreadystatechange sb s i h) evs)) ! i) = Closed
                   \<and> (\<forall>r. settlesTo (accesses (snd (run sb (onreadystatechange sb s i h) evs))) i r
                           \<longleftrightarrow> settlesTo (accesses (snd (run sb (onreadystatechange sb s i h) evs))) q r)
                   \<and> (\<forall>r. a_promise (accesses s ! q) = Settled r
                           \<longrightarrow> settlesTo (accesses (snd (run sb (onreadystatechange sb s i h) evs))) i r))
         | None \<Rightarrow>
             getAccessMap (captureInfo (onreadystatechange sb s i h)) (a_timeId (accesses s ! i))
               = (getAccessMap (captureInfo s) (a_timeId (accesses s ! i)))
                   (getAccessToken sb (fst (splitUrlByAnchor sb (h_responseURL h)))
                      (a_rewriteMethod (accesses s ! i)) \<mapsto> i)
           \<and> a_promise (accesses (onreadystatechange sb s i h) ! i) = Pending
           \<and> a_state (accesses (onreadystatechange sb s i h) ! i) = Received"
proof -
  note c = reachable_consistent [OF assms(1)]
  let ?a = "accesses s ! i"
  let ?k = "getAccessToken sb (fst (splitUrlByAnchor sb (h_responseURL h))) (a_rewriteMethod ?a)"
  let ?s' = "onreadystatechange sb s i h"
  have pend: "a_promise ?a = Pending"
    using consistent_pending [OF c assms(2)] assms(3) by simp
  show ?thesis
  proof (cases "getAccessMap (captureInfo s) (a_timeId ?a) ?k")
    case (Some q)
    have s': "?s' = s\<lparr>accesses := setState (setPromise (accesses s) i (Adopted q)) i Closed\<rparr>"
      using assms(2,3,4) Some by (simp add: onreadystatechange_def redirectCheck_def Let_def)
    have i': "i < length (accesses ?s')" using assms(2) by (simp add: s')
    have p': "a_promise (accesses ?s' ! i) = Adopted q" and x': "a_state (accesses ?s' ! i) = Closed"
      using assms(2) pend by (simp_all add: s' nth_setState nth_setPromise)
    have q: "q < length (accesses s)" by (rule consistent_bound [OF c Some])
    have later: "a_promise (accesses (snd (run sb ?s' evs)) ! i) = Adopted q
                   \<and> a_state (accesses (snd (run sb ?s' evs)) ! i) = Closed
                   \<and> (\<forall>r. settlesTo (accesses (snd (run sb ?s' evs))) i r
                           \<longleftrightarrow> settlesTo (accesses (snd (run sb ?s' evs))) q r)
                   \<and> (\<forall>r. a_promise (accesses s ! q) = Settled r
                           \<longrightarrow> settlesTo (accesses (snd (run sb ?s' evs))) i r)" for evs
    proof -
      let ?s'' = "snd (run sb ?s' evs)"
      note e = run_evolves [of sb ?s' evs]
      have e0: "evolves sb s ?s'"
        using step_evolves [of sb s "ReadyState2 i h"] by simp
      have i'': "i < length (accesses ?s'')" using evolves_length [OF e] i' by simp
      have p'': "a_promise (accesses ?s'' ! i) = Adopted q"
        using evolves_promise [OF e i'] p' by simp
      have x'': "a_state (accesses ?s'' ! i) = Closed"
        using evolves_closed [OF e i' x'] .
      have iff: "settlesTo (accesses ?s'') i r \<longleftrightarrow> settlesTo (accesses ?s'') q r" for r
        by (rule settlesTo_adopted_iff [OF i'' p''])
      have "settlesTo (accesses ?s'') i r" if "a_promise (accesses s ! q) = Settled r" for r
      proof -
        from that have "a_promise (accesses s ! q) \<noteq> Pending" by simp
        from evolves_promise [OF evolves_trans [OF e0 e] q this] that
        have "a_promise (accesses ?s'' ! q) = Settled r" by simp
        moreover have "q < length (accesses ?s'')"
          using evolves_length [OF evolves_trans [OF e0 e]] q by simp
        ultimately have "settlesTo (accesses ?s'') q r" by (intro settlesTo.settled)
        with iff show ?thesis by simp
      qed
      with p'' x'' iff show ?thesis by blast
    qed
    have "captureInfo ?s' = captureInfo s" by (simp add: s')
    with later show ?thesis unfolding Some option.case by blast
  next
    case None
    let ?s1 = "s\<lparr>captureInfo := setAccessMap (captureInfo s) (a_timeId ?a)
                                   ((getAccessMap (captureInfo s) (a_timeId ?a))(?k \<mapsto> i))\<rparr>"
    have r: "redirectCheck sb s i h = Inr ?s1"
      using assms(4) None by (simp add: redirectCheck_def Let_def)
    have "\<exists>a'. accesses ?s' = (accesses s)[i := a'] \<and> a_promise a' = a_promise ?a \<and> a_state a' = Received
            \<and> getAccessMap (captureInfo ?s') = getAccessMap (captureInfo ?s1)"
    proof (cases "a_kind ?a")
      case ForFile
      with assms(2,3) r have e: "?s' = nameFile sb ?s1 i h" by (simp add: onreadystatechange_def)
      from nameFile_effect [of sb ?s1 i h] show ?thesis unfolding e by auto
    next
      case ForUrl
      with assms(2,3) r have e: "?s' = nameDocument sb ?s1 i h" by (simp add: onreadystatechange_def)
      from nameDocument_effect [of sb ?s1 i h] show ?thesis unfolding e by auto
    qed
    then obtain a' where a': "accesses ?s' = (accesses s)[i := a']" "a_promise a' = a_promise ?a"
      "a_state a' = Received" and m: "getAccessMap (captureInfo ?s') = getAccessMap (captureInfo ?s1)"
      by blast
    show ?thesis
      using a' pend assms(2) by (simp add: None m)
  qed
qed


text \<open>A settled promise that the access map holds stays as it is, and is what later requests get.\<close>

lemma settled_stays:
  assumes c: "consistent sb s" and i: "i < length (accesses s)"
    and p: "a_promise (accesses s ! i) = Settled r"
  shows "a_promise (accesses (snd (run sb s evs)) ! i) = Settled r
       \<and> settlesTo (accesses (snd (run sb s evs))) i r
       \<and> getAccessMap (captureInfo (snd (run sb s evs))) (fst (accessKey sb (accesses s ! i)))
            (snd (accessKey sb (accesses s ! i))) = Some i
       \<and> (requestKey sb req = Some (accessKey sb (accesses s ! i))
            \<longrightarrow> fst (step sb (snd (run sb s evs)) req) = Some i
              \<and> accesses (snd (step sb (snd (run sb s evs)) req)) = accesses (snd (run sb s evs)))"
proof -
  let ?s' = "snd (run sb s evs)"
  note e = run_evolves [of sb s evs]
  have i': "i < length (accesses ?s')" using evolves_length [OF e] i by simp
  have p': "a_promise (accesses ?s' ! i) = Settled r"
    using evolves_promise [OF e i] p by simp
  have st: "settlesTo (accesses ?s') i r" using i' p' by (rule settlesTo.settled)
  have c': "consistent sb ?s'" by (rule run_consistent [OF c])
  have "getAccessMap (captureInfo ?s') (fst (accessKey sb (accesses ?s' ! i)))
          (snd (accessKey sb (accesses ?s' ! i))) = Some i"
    by (rule consistent_key [OF c' i'])
  then have m: "getAccessMap (captureInfo ?s') (fst (accessKey sb (accesses s ! i)))
          (snd (accessKey sb (accesses s ! i))) = Some i"
    by (simp only: evolves_key [OF e i])
  have "fst (step sb ?s' req) = Some i \<and> accesses (snd (step sb ?s' req)) = accesses ?s'"
    if "requestKey sb req = Some (accessKey sb (accesses s ! i))"
    by (rule request_hit [OF that m])
  with p' st m show ?thesis by blast
qed

lemma length_rejectWith [simp]: "length (rejectWith sb as i ex) = length as"
  by (simp add: rejectWith_def length_setPromise)

lemma rejectWith_pending:
  assumes "i < length as" and "a_promise (as ! i) = Pending"
  shows "a_promise (setState (rejectWith sb as i ex) i x ! i)
           = Settled (errorResponse sb (a_sourceUrl (as ! i)) (a_options (as ! i)) ex)"
    and "accessKey sb (setState (rejectWith sb as i ex) i x ! i) = accessKey sb (as ! i)"
    and "length (setState (rejectWith sb as i ex) i x) = length as"
  using assms by (simp_all add: rejectWith_def nth_setState nth_setPromise)

text \<open>
  Claim C3. When a request fails (\<^verbatim>\<open>onerror\<close>), when the work after it fails, or when a
  \<^verbatim>\<open>data:\<close> URI that is to be saved as a file is malformed, the promise the access map
  holds is fulfilled with the record \<^verbatim>\<open>{url: capturer.getErrorUrl(sourceUrl, options), error: ex}\<close>.
  Whatever happens afterwards in the session, the promise keeps that record, the access
  map keeps the promise under the token, and a request with the same token returns that
  promise and starts nothing.
\<close>
theorem failure_memoized:
  assumes "reachable sb s"
  shows "(i < length (accesses s) \<and> a_state (accesses s ! i) \<in> {Sent, Received} \<longrightarrow>
            (let a = accesses s ! i;
                 rec = errorResponse sb (a_sourceUrl a) (a_options a) ex;
                 s' = snd (run sb (onerror sb s i ex) evs)
             in r_url rec = getErrorUrl sb (a_sourceUrl a) (a_options a) \<and> r_error rec = Some ex
              \<and> a_promise (accesses s' ! i) = Settled rec
              \<and> settlesTo (accesses s') i rec
              \<and> getAccessMap (captureInfo s') (fst (accessKey sb a)) (snd (accessKey sb a)) = Some i
              \<and> (requestKey sb req = Some (accessKey sb a)
                   \<longrightarrow> fst (step sb s' req) = Some i \<and> accesses (snd (step sb s' req)) = accesses s')))
       \<and> (i < length (accesses s) \<and> a_state (accesses s ! i) = Chained \<longrightarrow>
            (let a = accesses s ! i;
                 rec = errorResponse sb (a_sourceUrl a) (a_options a) ex;
                 s' = snd (run sb (onchain sb s i (Inl ex)) evs)
             in a_promise (accesses s' ! i) = Settled rec
              \<and> settlesTo (accesses s') i rec
              \<and> getAccessMap (captureInfo s') (fst (accessKey sb a)) (snd (accessKey sb a)) = Some i
              \<and> (requestKey sb req = Some (accessKey sb a)
                   \<longrightarrow> fst (step sb s' req) = Some i \<and> accesses (snd (step sb s' req)) = accesses s')))
       \<and> (requestKey sb (DownloadFile p) = Some k
            \<and> getAccessMap (captureInfo s) (fst k) (snd k) = None
            \<and> startsWith (fst (splitUrlByAnchor sb (p_url p))) ''data:''
            \<and> saveDataUriAsFile (p_options p) \<and> saveAs (p_options p) \<noteq> ''singleHtml''
            \<and> dataUriToFile sb (fst (splitUrlByAnchor sb (p_url p))) = None \<longrightarrow>
            (let rec = errorResponse sb (p_url p) (p_options p) (Error ''Malformed data URL.'');
                 n = fst (downloadFile sb s p);
                 s' = snd (run sb (snd (downloadFile sb s p)) evs)
             in a_promise (accesses s' ! n) = Settled rec
              \<and> settlesTo (accesses s') n rec
              \<and> getAccessMap (captureInfo s') (fst k) (snd k) = Some n
              \<and> a_xhr (accesses s' ! n) = None
              \<and> (requestKey sb req = Some k
                   \<longrightarrow> fst (step sb s' req) = Some n \<and> accesses (snd (step sb s' req)) = accesses s')))"
proof (intro conjI impI)
  note c = reachable_consistent [OF assms]
  {
    assume h: "i < length (accesses s) \<and> a_state (accesses s ! i) \<in> {Sent, Received}"
    let ?a = "accesses s ! i"
    let ?rec = "errorResponse sb (a_sourceUrl ?a) (a_options ?a) ex"
    let ?s1 = "onerror sb s i ex"
    have i: "i < length (accesses s)" using h by simp
    have pend: "a_promise ?a = Pending" using consistent_pending [OF c i] h by auto
    have s1: "?s1 = s\<lparr>accesses := setState (rejectWith sb (accesses s) i ex) i Closed\<rparr>"
      using h by (simp add: onerror_def)
    have c1: "consistent sb ?s1" using step_consistent [OF c, of "Fail i ex"] by simp
    have i1: "i < length (accesses ?s1)" using i by (simp add: s1)
    have p1: "a_promise (accesses ?s1 ! i) = Settled ?rec"
      by (simp add: s1 rejectWith_pending(1) [OF i pend])
    have k1: "accessKey sb (accesses ?s1 ! i) = accessKey sb ?a"
      by (simp add: s1 rejectWith_pending(2) [OF i pend])
    from settled_stays [OF c1 i1 p1, of evs req, unfolded k1]
    show "let a = accesses s ! i;
              rec = errorResponse sb (a_sourceUrl a) (a_options a) ex;
              s' = snd (run sb (onerror sb s i ex) evs)
          in r_url rec = getErrorUrl sb (a_sourceUrl a) (a_options a) \<and> r_error rec = Some ex
           \<and> a_promise (accesses s' ! i) = Settled rec
           \<and> settlesTo (accesses s') i rec
           \<and> getAccessMap (captureInfo s') (fst (accessKey sb a)) (snd (accessKey sb a)) = Some i
           \<and> (requestKey sb req = Some (accessKey sb a)
                \<longrightarrow> fst (step sb s' req) = Some i \<and> accesses (snd (step sb s' req)) = accesses s')"
      unfolding Let_def by (simp add: errorResponse_def plainResponse_def)
  }
  {
    assume h: "i < length (accesses s) \<and> a_state (accesses s ! i) = Chained"
    let ?a = "accesses s ! i"
    let ?rec = "errorResponse sb (a_sourceUrl ?a) (a_options ?a) ex"
    let ?s1 = "onchain sb s i (Inl ex)"
    have i: "i < length (accesses s)" using h by simp
    have pend: "a_promise ?a = Pending" using consistent_pending [OF c i] h by auto
    have s1: "?s1 = s\<lparr>accesses := setState (rejectWith sb (accesses s) i ex) i Closed\<rparr>"
      using h by (simp add: onchain_def)
    have c1: "consistent sb ?s1" using step_consistent [OF c, of "ChainSettled i (Inl ex)"] by simp
    have i1: "i < length (accesses ?s1)" using i by (simp add: s1)
    have p1: "a_promise (accesses ?s1 ! i) = Settled ?rec"
      by (simp add: s1 rejectWith_pending(1) [OF i pend])
    have k1: "accessKey sb (accesses ?s1 ! i) = accessKey sb ?a"
      by (simp add: s1 rejectWith_pending(2) [OF i pend])
    from settled_stays [OF c1 i1 p1, of evs req, unfolded k1]
    show "let a = accesses s ! i;
              rec = errorResponse sb (a_sourceUrl a) (a_options a) ex;
              s' = snd (run sb (onchain sb s i (Inl ex)) evs)
          in a_promise (accesses s' ! i) = Settled rec
           \<and> settlesTo (accesses s') i rec
           \<and> getAccessMap (captureInfo s') (fst (accessKey sb a)) (snd (accessKey sb a)) = Some i
           \<and> (requestKey sb req = Some (accessKey sb a)
                \<longrightarrow> fst (step sb s' req) = Some i \<and> accesses (snd (step sb s' req)) = accesses s')"
      unfolding Let_def by simp
  }
  {
    assume h: "requestKey sb (DownloadFile p) = Some k
            \<and> getAccessMap (captureInfo s) (fst k) (snd k) = None
            \<and> startsWith (fst (splitUrlByAnchor sb (p_url p))) ''data:''
            \<and> saveDataUriAsFile (p_options p) \<and> saveAs (p_options p) \<noteq> ''singleHtml''
            \<and> dataUriToFile sb (fst (splitUrlByAnchor sb (p_url p))) = None"
    let ?rec = "errorResponse sb (p_url p) (p_options p) (Error ''Malformed data URL.'')"
    let ?n = "fst (downloadFile sb s p)"
    let ?s1 = "snd (downloadFile sb s p)"
    have k: "k = (timeId (p_settings p),
                  getAccessToken sb (fst (splitUrlByAnchor sb (p_url p))) (p_rewriteMethod p))"
      using h by auto
    have miss: "getAccessMap (captureInfo s) (timeId (p_settings p))
                  (getAccessToken sb (fst (splitUrlByAnchor sb (p_url p))) (p_rewriteMethod p)) = None"
      using h k by simp
    have n: "?n = length (accesses s)"
      and as: "accesses ?s1 = accesses s @
                 [\<lparr>a_kind = ForFile, a_timeId = timeId (p_settings p), a_sourceUrl = p_url p,
                   a_sourceUrlMain = fst (splitUrlByAnchor sb (p_url p)),
                   a_rewriteMethod = p_rewriteMethod p, a_options = p_options p, a_xhr = None,
                   a_state = Closed, a_filename = None,
                   a_documentName = documentName (p_settings p), a_promise = Settled ?rec\<rparr>]"
      using h miss by (simp_all add: downloadFile_def Let_def)
    have c1: "consistent sb ?s1" using step_consistent [OF c, of "DownloadFile p"]
      by (simp add: case_prod_unfold Let_def)
    have i1: "?n < length (accesses ?s1)" by (simp add: n as)
    have p1: "a_promise (accesses ?s1 ! ?n) = Settled ?rec" by (simp add: n as)
    have k1: "accessKey sb (accesses ?s1 ! ?n) = k" by (simp add: n as k accessKey_def)
    have x1: "a_xhr (accesses ?s1 ! ?n) = None" by (simp add: n as)
    have x: "a_xhr (accesses (snd (run sb ?s1 evs)) ! ?n) = None"
      using run_evolves [of sb ?s1 evs] i1 x1 unfolding evolves_def by metis
    from settled_stays [OF c1 i1 p1, of evs req, unfolded k1] x
    show "let rec = errorResponse sb (p_url p) (p_options p) (Error ''Malformed data URL.'');
              n = fst (downloadFile sb s p);
              s' = snd (run sb (snd (downloadFile sb s p)) evs)
          in a_promise (accesses s' ! n) = Settled rec
           \<and> settlesTo (accesses s') n rec
           \<and> getAccessMap (captureInfo s') (fst k) (snd k) = Some n
           \<and> a_xhr (accesses s' ! n) = None
           \<and> (requestKey sb req = Some k
                \<longrightarrow> fst (step sb s' req) = Some n \<and> accesses (snd (step sb s' req)) = accesses s')"
      unfolding Let_def by simp
  }
qed

subsection \<open>Examples\<close>

lemma getAccessMap_empty [simp]: "getAccessMap Map.empty t = Map.empty"
  by (simp add: getAccessMap_def getInfo_def emptyInfo_def)

lemma reachable_init: "reachable sb init"
  unfolding reachable_def by (rule exI [of _ "[]"]) simp

lemmas ex_defs = exRequest_def exOptions_def exScrapbook_def exHeaders_def
lemmas request_defs = downloadFile_def getAccessToken_def init_def startsWith_def referer_def
  truthy_def Let_def case_prod_unfold

theorem one_access_per_key_witness:
  "reachable exScrapbook init
   \<and> requestKey exScrapbook (DownloadFile (exRequest ''http://e/a#x'' (exOptions ''zip'')))
       = Some (''t'', ''http://e/a'' @ [CHR 0x09])
   \<and> requestKey exScrapbook (DownloadFile (exRequest ''http://e/a#y'' (exOptions ''zip'')))
       = Some (''t'', ''http://e/a'' @ [CHR 0x09])
   \<and> fst (run exScrapbook init
             [DownloadFile (exRequest ''http://e/a#x'' (exOptions ''zip'')),
              DownloadFile (exRequest ''http://e/a#y'' (exOptions ''zip''))]) ! 0
       = fst (run exScrapbook init
                [DownloadFile (exRequest ''http://e/a#x'' (exOptions ''zip'')),
                 DownloadFile (exRequest ''http://e/a#y'' (exOptions ''zip''))]) ! 1
   \<and> fst (run exScrapbook init
             [DownloadFile (exRequest ''http://e/a#x'' (exOptions ''zip'')),
              DownloadFile (exRequest ''http://e/a#y'' (exOptions ''zip''))]) = [Some 0, Some 0]
   \<and> requestsFor exScrapbook
        (snd (run exScrapbook init
                [DownloadFile (exRequest ''http://e/a#x'' (exOptions ''zip'')),
                 DownloadFile (exRequest ''http://e/a#y'' (exOptions ''zip''))]))
        (''t'', ''http://e/a'' @ [CHR 0x09])
       = [\<lparr>xhr_url = ''http://e/a#x'', xhr_responseType = ''blob'', xhr_referer = None\<rparr>]"
proof -
  let ?x = "DownloadFile (exRequest ''http://e/a#x'' (exOptions ''zip''))"
  let ?y = "DownloadFile (exRequest ''http://e/a#y'' (exOptions ''zip''))"
  have kx: "requestKey exScrapbook ?x = Some (''t'', ''http://e/a'' @ [CHR 0x09])"
    and ky: "requestKey exScrapbook ?y = Some (''t'', ''http://e/a'' @ [CHR 0x09])"
    by (simp_all add: ex_defs getAccessToken_def)
  have "0 < length [?x, ?y]" "1 < length [?x, ?y]"
    "requestKey exScrapbook ([?x, ?y] ! 0) \<noteq> None
       \<and> requestKey exScrapbook ([?x, ?y] ! 0) = requestKey exScrapbook ([?x, ?y] ! 1)"
    using kx ky by simp_all
  from one_access_per_key [OF reachable_init, where sb = exScrapbook and evs = "[?x, ?y]",
      THEN conjunct1, rule_format, OF this]
  have same: "fst (run exScrapbook init [?x, ?y]) ! 0 = fst (run exScrapbook init [?x, ?y]) ! 1"
    by (rule conjunct1)
  have ids: "fst (run exScrapbook init [?x, ?y]) = [Some 0, Some 0]"
    by (simp add: ex_defs request_defs)
  have reqs: "requestsFor exScrapbook (snd (run exScrapbook init [?x, ?y]))
                (''t'', ''http://e/a'' @ [CHR 0x09])
       = [\<lparr>xhr_url = ''http://e/a#x'', xhr_responseType = ''blob'', xhr_referer = None\<rparr>]"
    by (simp add: ex_defs request_defs requestsFor_def accessKey_def)
  from reachable_init kx ky same ids reqs show ?thesis by blast
qed

text \<open>
  The claim as stated ("exactly one network fetch") fails for \<open>downloadFile\<close> on a
  \<^verbatim>\<open>data:\<close> URI: two requests that differ only in the fragment return the same promise,
  and no network request is made at all.
\<close>

theorem one_fetch_counterexample:
  "requestKey exScrapbook
       (DownloadFile (exRequest ''data:,a#x'' ((exOptions ''zip'')\<lparr>saveDataUriAsFile := False\<rparr>)))
     = requestKey exScrapbook
         (DownloadFile (exRequest ''data:,a#y'' ((exOptions ''zip'')\<lparr>saveDataUriAsFile := False\<rparr>)))
   \<and> fst (run exScrapbook init
             [DownloadFile (exRequest ''data:,a#x'' ((exOptions ''zip'')\<lparr>saveDataUriAsFile := False\<rparr>)),
              DownloadFile (exRequest ''data:,a#y'' ((exOptions ''zip'')\<lparr>saveDataUriAsFile := False\<rparr>))])
       = [Some 0, Some 0]
   \<and> map a_xhr (accesses (snd (run exScrapbook init
             [DownloadFile (exRequest ''data:,a#x'' ((exOptions ''zip'')\<lparr>saveDataUriAsFile := False\<rparr>)),
              DownloadFile (exRequest ''data:,a#y'' ((exOptions ''zip'')\<lparr>saveDataUriAsFile := False\<rparr>))])))
       = [None]"
  by (simp add: ex_defs request_defs)


lemmas handler_defs = onreadystatechange_def redirectCheck_def nameFile_def onload_def onchain_def
  onerror_def setState_def setPromise_def resolveWith_def rejectWith_def headersFilename_def
  headersContentType_def

lemma exWaiting_facts:
  "length (accesses exWaiting) = 2"
  "a_state (accesses exWaiting ! 1) = Sent"
  "a_timeId (accesses exWaiting ! 1) = ''t''"
  "a_rewriteMethod (accesses exWaiting ! 1) = None"
  "a_sourceUrlMain (accesses exWaiting ! 1) = ''http://e/a''"
  "a_promise (accesses exWaiting ! 0) = Settled exSaved"
  "getAccessMap (captureInfo exWaiting) ''t'' (''http://e/b'' @ [CHR 0x09]) = Some 0"
  "getAccessMap (captureInfo exWaiting) ''t'' (''http://e/c'' @ [CHR 0x09]) = None"
proof -
  define s where "s = snd (run exScrapbook init
                             [DownloadFile (exRequest ''http://e/b'' (exOptions ''zip'')),
                              ReadyState2 0 (exHeaders ''http://e/b'')])"
  have s: "length (accesses s) = 1" "a_state (accesses s ! 0) = Received"
    "a_promise (accesses s ! 0) = Pending"
    "getAccessMap (captureInfo s) ''t'' k = (if k = ''http://e/b'' @ [CHR 0x09] then Some 0 else None)"
    for k
    unfolding s_def by (simp_all add: ex_defs request_defs handler_defs)
  have w: "exWaiting = snd (downloadFile exScrapbook (onchain exScrapbook (onload s 0) 0 (Inr exSaved))
                              (exRequest ''http://e/a'' (exOptions ''zip'')))"
    unfolding exWaiting_def s_def
    by (simp only: run_Cons run.simps(1) step.simps snd_conv fst_conv Let_def case_prod_unfold)
  show "length (accesses exWaiting) = 2"
    "a_state (accesses exWaiting ! 1) = Sent"
    "a_timeId (accesses exWaiting ! 1) = ''t''"
    "a_rewriteMethod (accesses exWaiting ! 1) = None"
    "a_sourceUrlMain (accesses exWaiting ! 1) = ''http://e/a''"
    "a_promise (accesses exWaiting ! 0) = Settled exSaved"
    "getAccessMap (captureInfo exWaiting) ''t'' (''http://e/b'' @ [CHR 0x09]) = Some 0"
    "getAccessMap (captureInfo exWaiting) ''t'' (''http://e/c'' @ [CHR 0x09]) = None"
    unfolding w
    by (simp_all add: s ex_defs downloadFile_def getAccessToken_def startsWith_def referer_def
          truthy_def Let_def case_prod_unfold onload_def onchain_def setState_def setPromise_def
          resolveWith_def nth_append)
qed

theorem redirect_merges_witness:
  "reachable exScrapbook exWaiting
   \<and> 1 < length (accesses exWaiting)
   \<and> a_state (accesses exWaiting ! 1) = Sent
   \<and> fst (splitUrlByAnchor exScrapbook (h_responseURL (exHeaders ''http://e/b'')))
       \<noteq> a_sourceUrlMain (accesses exWaiting ! 1)
   \<and> fst (splitUrlByAnchor exScrapbook (h_responseURL (exHeaders ''http://e/c'')))
       \<noteq> a_sourceUrlMain (accesses exWaiting ! 1)
   \<and> a_promise (accesses exWaiting ! 0) = Settled exSaved
   \<and> a_promise (accesses (onreadystatechange exScrapbook exWaiting 1 (exHeaders ''http://e/b'')) ! 1)
       = Adopted 0
   \<and> a_state (accesses (onreadystatechange exScrapbook exWaiting 1 (exHeaders ''http://e/b'')) ! 1)
       = Closed
   \<and> settlesTo (accesses (onreadystatechange exScrapbook exWaiting 1 (exHeaders ''http://e/b''))) 1
        exSaved
   \<and> getAccessMap (captureInfo (onreadystatechange exScrapbook exWaiting 1 (exHeaders ''http://e/c'')))
        ''t'' (''http://e/c'' @ [CHR 0x09]) = Some 1
   \<and> a_promise (accesses (onreadystatechange exScrapbook exWaiting 1 (exHeaders ''http://e/c'')) ! 1)
       = Pending"
proof -
  have r: "reachable exScrapbook exWaiting"
    unfolding exWaiting_def by (rule reachable_run [OF reachable_init])
  have i: "1 < length (accesses exWaiting)" using exWaiting_facts(1) by simp
  note x = exWaiting_facts(2)
  have b: "fst (splitUrlByAnchor exScrapbook (h_responseURL (exHeaders ''http://e/b'')))
             \<noteq> a_sourceUrlMain (accesses exWaiting ! 1)"
    and c: "fst (splitUrlByAnchor exScrapbook (h_responseURL (exHeaders ''http://e/c'')))
             \<noteq> a_sourceUrlMain (accesses exWaiting ! 1)"
    using exWaiting_facts(5) by (simp_all add: ex_defs)
  have kb: "getAccessMap (captureInfo exWaiting) (a_timeId (accesses exWaiting ! 1))
              (getAccessToken exScrapbook
                 (fst (splitUrlByAnchor exScrapbook (h_responseURL (exHeaders ''http://e/b''))))
                 (a_rewriteMethod (accesses exWaiting ! 1))) = Some 0"
    using exWaiting_facts(3,4,7) by (simp add: ex_defs getAccessToken_def)
  have kc: "getAccessMap (captureInfo exWaiting) (a_timeId (accesses exWaiting ! 1))
              (getAccessToken exScrapbook
                 (fst (splitUrlByAnchor exScrapbook (h_responseURL (exHeaders ''http://e/c''))))
                 (a_rewriteMethod (accesses exWaiting ! 1))) = None"
    using exWaiting_facts(3,4,8) by (simp add: ex_defs getAccessToken_def)
  have tc: "getAccessToken exScrapbook
              (fst (splitUrlByAnchor exScrapbook (h_responseURL (exHeaders ''http://e/c''))))
              (a_rewriteMethod (accesses exWaiting ! 1)) = ''http://e/c'' @ [CHR 0x09]"
    using exWaiting_facts(4) by (simp add: ex_defs getAccessToken_def)
  from redirect_merges [OF r i x b, unfolded kb option.case, THEN conjunct2, rule_format, of "[]",
      unfolded run.simps(1) snd_conv] exWaiting_facts(6)
  have merged:
    "a_promise (accesses (onreadystatechange exScrapbook exWaiting 1 (exHeaders ''http://e/b'')) ! 1)
       = Adopted 0
     \<and> a_state (accesses (onreadystatechange exScrapbook exWaiting 1 (exHeaders ''http://e/b'')) ! 1)
       = Closed
     \<and> settlesTo (accesses (onreadystatechange exScrapbook exWaiting 1 (exHeaders ''http://e/b''))) 1
        exSaved"
    by blast
  from redirect_merges [OF r i x c, unfolded kc option.case]
  have registered:
    "getAccessMap (captureInfo (onreadystatechange exScrapbook exWaiting 1 (exHeaders ''http://e/c'')))
        ''t'' (''http://e/c'' @ [CHR 0x09]) = Some 1
     \<and> a_promise (accesses (onreadystatechange exScrapbook exWaiting 1 (exHeaders ''http://e/c'')) ! 1)
       = Pending"
    unfolding tc exWaiting_facts(3) by simp
  from r i x b c exWaiting_facts(6) merged registered show ?thesis by blast
qed

theorem failure_memoized_witness:
  "reachable exScrapbook init
   \<and> reachable exScrapbook
       (snd (run exScrapbook init [DownloadFile (exRequest ''http://e/a#x'' (exOptions ''zip''))]))
   \<and> a_state (accesses (snd (run exScrapbook init
                 [DownloadFile (exRequest ''http://e/a#x'' (exOptions ''zip''))])) ! 0) = Sent
   \<and> a_promise (accesses (onerror exScrapbook
                   (snd (run exScrapbook init
                           [DownloadFile (exRequest ''http://e/a#x'' (exOptions ''zip''))]))
                   0 (Error ''net'')) ! 0)
       = Settled \<lparr>r_timeId = None, r_sourceUrl = None, r_targetDir = None, r_filename = None,
                  r_url = ''urn:scrapbook:download:error:http://e/a#x'',
                  r_error = Some (Error ''net'')\<rparr>
   \<and> fst (step exScrapbook
            (onerror exScrapbook
               (snd (run exScrapbook init
                       [DownloadFile (exRequest ''http://e/a#x'' (exOptions ''zip''))]))
               0 (Error ''net''))
            (DownloadFile (exRequest ''http://e/a#y'' (exOptions ''zip'')))) = Some 0
   \<and> a_promise (accesses (snd (downloadFile exScrapbook init (exRequest ''data:,a'' (exOptions ''zip''))))
                 ! fst (downloadFile exScrapbook init (exRequest ''data:,a'' (exOptions ''zip''))))
       = Settled \<lparr>r_timeId = None, r_sourceUrl = None, r_targetDir = None, r_filename = None,
                  r_url = ''urn:scrapbook:download:error:data:,a'',
                  r_error = Some (Error ''Malformed data URL.'')\<rparr>"
proof -
  let ?x = "exRequest ''http://e/a#x'' (exOptions ''zip'')"
  let ?y = "exRequest ''http://e/a#y'' (exOptions ''zip'')"
  let ?d = "exRequest ''data:,a'' (exOptions ''zip'')"
  let ?s = "snd (run exScrapbook init [DownloadFile ?x])"
  have r: "reachable exScrapbook ?s" by (rule reachable_run [OF reachable_init])
  have s: "length (accesses ?s) = 1" "a_state (accesses ?s ! 0) = Sent"
    "a_sourceUrl (accesses ?s ! 0) = ''http://e/a#x''"
    "accessKey exScrapbook (accesses ?s ! 0) = (''t'', ''http://e/a'' @ [CHR 0x09])"
    by (simp_all add: ex_defs request_defs accessKey_def)
  have ky: "requestKey exScrapbook (DownloadFile ?y) = Some (accessKey exScrapbook (accesses ?s ! 0))"
    unfolding s(4) by (simp add: ex_defs getAccessToken_def)
  have h1: "0 < length (accesses ?s) \<and> a_state (accesses ?s ! 0) \<in> {Sent, Received}"
    using s(1,2) by simp
  from failure_memoized [OF r, where i = 0 and ex = "Error ''net''" and evs = "[]"
      and req = "DownloadFile ?y", THEN conjunct1, rule_format, OF h1]
  have net: "a_promise (accesses (onerror exScrapbook ?s 0 (Error ''net'')) ! 0)
               = Settled \<lparr>r_timeId = None, r_sourceUrl = None, r_targetDir = None, r_filename = None,
                          r_url = ''urn:scrapbook:download:error:http://e/a#x'',
                          r_error = Some (Error ''net'')\<rparr>
           \<and> fst (step exScrapbook (onerror exScrapbook ?s 0 (Error ''net'')) (DownloadFile ?y)) = Some 0"
    using ky unfolding Let_def s(3)
    by (simp add: errorResponse_def plainResponse_def exScrapbook_def)
  have h3: "requestKey exScrapbook (DownloadFile ?d) = Some (''t'', ''data:,a'' @ [CHR 0x09])
            \<and> getAccessMap (captureInfo init) (fst (''t'', ''data:,a'' @ [CHR 0x09]))
                 (snd (''t'', ''data:,a'' @ [CHR 0x09])) = None
            \<and> startsWith (fst (splitUrlByAnchor exScrapbook (p_url ?d))) ''data:''
            \<and> saveDataUriAsFile (p_options ?d) \<and> saveAs (p_options ?d) \<noteq> ''singleHtml''
            \<and> dataUriToFile exScrapbook (fst (splitUrlByAnchor exScrapbook (p_url ?d))) = None"
    by (simp add: ex_defs getAccessToken_def init_def startsWith_def)
  from failure_memoized [OF reachable_init, where sb = exScrapbook and evs = "[]",
      THEN conjunct2, THEN conjunct2, rule_format, OF h3]
  have bad: "a_promise (accesses (snd (downloadFile exScrapbook init ?d))
                          ! fst (downloadFile exScrapbook init ?d))
               = Settled \<lparr>r_timeId = None, r_sourceUrl = None, r_targetDir = None, r_filename = None,
                          r_url = ''urn:scrapbook:download:error:data:,a'',
                          r_error = Some (Error ''Malformed data URL.'')\<rparr>"
    unfolding Let_def
    by (simp add: errorResponse_def plainResponse_def ex_defs)
  from reachable_init r s(2) net bad show ?thesis by blast
qed

end
